theory Spec2Isabelle
  imports Main "HOL-Library.Sublist"
begin

text \<open>
  A shallow embedding of the HTML tokenizer and parser of \<open>html-tokenizer\<close>: the chunkers
  (regular expressions anchored at a position), the attribute reader, the state machine
  \<open>_tokenize\<close> with its coalescing wrapper \<open>tokenize\<close>, and the stack machine \<open>parse\<close>.
  The generators are modelled by the lists of what they yield. The definitions come
  first; the facts about them follow.
\<close>

section \<open>Strings and character classes\<close>

text \<open>
  A JavaScript string is a sequence of UTF-16 code units, and the regular expressions of
  the tokenizer (none carries the \<open>u\<close> flag) work on code units. A code unit is modelled
  as a natural number, a string as the list of its code units; \<open>lit\<close> turns a literal
  into such a list.
\<close>

type_synonym jsstring = "nat list"

definition lit :: "string \<Rightarrow> jsstring" where
  "lit s = map of_char s"

abbreviation (input) ch :: "char \<Rightarrow> nat" where
  "ch c \<equiv> of_char c"

datatype error = TypeError

text \<open>
  The class \<open>\s\<close> of an ECMAScript regular expression: the white space and the line
  terminator code units (tab, LF, VT, FF, CR, space, U+00A0, U+1680, U+2000 to U+200A,
  U+2028, U+2029, U+202F, U+205F, U+3000, U+FEFF).
\<close>

definition isSpace :: "nat \<Rightarrow> bool" where
  "isSpace c \<longleftrightarrow>
     c \<in> set [9, 10, 11, 12, 13, 32, 160, 5760, 8232, 8233, 8239, 8287, 12288, 65279]
     \<or> (8192 \<le> c \<and> c \<le> 8202)"

text \<open>
  The class \<open>[a-z0-9-]\<close> under the flag \<open>i\<close>. Without the flag \<open>u\<close> a code unit
  above 127 is never canonicalised to an ASCII letter, so the class holds the ASCII
  letters of both cases, the digits and the hyphen. \<open>[a-z0-9\-_]\<close> adds the underscore.
\<close>

definition isTagChar :: "nat \<Rightarrow> bool" where
  "isTagChar c \<longleftrightarrow>
     (ch CHR ''a'' \<le> c \<and> c \<le> ch CHR ''z'') \<or> (ch CHR ''A'' \<le> c \<and> c \<le> ch CHR ''Z'')
     \<or> (ch CHR ''0'' \<le> c \<and> c \<le> ch CHR ''9'') \<or> c = ch CHR ''-''"

definition isAttrChar :: "nat \<Rightarrow> bool" where
  "isAttrChar c \<longleftrightarrow> isTagChar c \<or> c = ch CHR ''_''"

text \<open>\<open>String.prototype.charAt\<close>, \<open>substring\<close> (one and two arguments) and \<open>indexOf\<close>.\<close>

definition charAt :: "jsstring \<Rightarrow> nat \<Rightarrow> nat option" where
  "charAt str i = (if i < length str then Some (str ! i) else None)"

definition substringFrom :: "jsstring \<Rightarrow> nat \<Rightarrow> jsstring" where
  "substringFrom str a = drop a str"

definition substring :: "jsstring \<Rightarrow> nat \<Rightarrow> nat \<Rightarrow> jsstring" where
  "substring str a b =
     (let a' = min a (length str); b' = min b (length str)
      in take (max a' b' - min a' b') (drop (min a' b') str))"

definition indexOf :: "jsstring \<Rightarrow> nat \<Rightarrow> nat \<Rightarrow> nat option" where
  "indexOf str c from =
     (let r = drop from str; n = length (takeWhile (\<lambda>x. x \<noteq> c) r)
      in if n < length r then Some (from + n) else None)"

text \<open>The offset of the first occurrence of \<open>needle\<close> in a string, if there is one.\<close>

fun indexOfSub :: "jsstring \<Rightarrow> jsstring \<Rightarrow> nat option" where
  "indexOfSub needle [] = (if needle = [] then Some 0 else None)"
| "indexOfSub needle (x # xs) =
     (if prefix needle (x # xs) then Some 0 else map_option Suc (indexOfSub needle xs))"

section \<open>Chunkers\<close>

text \<open>
  \<open>chunker(regex)\<close> sets \<open>lastIndex\<close> to \<open>pos\<close>, runs \<open>exec\<close> and rejects a match that
  does not start at \<open>pos\<close>: each chunker is the match of its expression anchored at
  \<open>pos\<close>. A chunk is the pair of \<open>match[1].length\<close> and the capture group that the
  tokenizer reads.

  \<open>matchName P\<close> is the sub-expression \<open>([P]+:)?[P]+\<close> at the head of a string: the
  greedy run, extended by a colon and a second non-empty run when they follow. The
  alternatives that backtracking would try afterwards all end in front of a character
  of the class or in front of the colon, so an expression that continues with \<open>>\<close>
  matches with the first alternative or not at all.
\<close>

definition matchName :: "(nat \<Rightarrow> bool) \<Rightarrow> jsstring \<Rightarrow> jsstring option" where
  "matchName P s =
     (let run1 = takeWhile P s; rest = dropWhile P s in
      if run1 = [] then None
      else (case rest of
              [] \<Rightarrow> Some run1
            | c # rest' \<Rightarrow>
                if c = ch CHR '':'' \<and> takeWhile P rest' \<noteq> []
                then Some (run1 @ c # takeWhile P rest')
                else Some run1))"

text \<open>\<open>/(<(([a-z0-9-]+:)?[a-z0-9-]+))/ig\<close>, capture 2.\<close>

definition getOpeningTag :: "jsstring \<Rightarrow> nat \<Rightarrow> (nat \<times> jsstring) option" where
  "getOpeningTag str pos =
     (case drop pos str of
        [] \<Rightarrow> None
      | c # s \<Rightarrow>
          if c = ch CHR ''<''
          then (case matchName isTagChar s of
                  None \<Rightarrow> None
                | Some nm \<Rightarrow> Some (1 + length nm, nm))
          else None)"

text \<open>\<open>/([^<]+)/g\<close>, capture 1.\<close>

definition getText :: "jsstring \<Rightarrow> nat \<Rightarrow> (nat \<times> jsstring) option" where
  "getText str pos =
     (let run = takeWhile (\<lambda>c. c \<noteq> ch CHR ''<'') (drop pos str)
      in if run = [] then None else Some (length run, run))"

text \<open>\<open>/(<\/(([a-z0-9-]+:)?[a-z0-9-]+)>)/ig\<close>, capture 2.\<close>

definition getClosingTag :: "jsstring \<Rightarrow> nat \<Rightarrow> (nat \<times> jsstring) option" where
  "getClosingTag str pos =
     (case drop pos str of
        a # b # s \<Rightarrow>
          if a = ch CHR ''<'' \<and> b = ch CHR ''/''
          then (case matchName isTagChar s of
                  None \<Rightarrow> None
                | Some nm \<Rightarrow>
                    (case drop (length nm) s of
                       [] \<Rightarrow> None
                     | c # _ \<Rightarrow> if c = ch CHR ''>'' then Some (length nm + 3, nm) else None))
          else None
      | _ \<Rightarrow> None)"

text \<open>\<open>/(<!--)/g\<close>, capture 1.\<close>

definition getCommentOpen :: "jsstring \<Rightarrow> nat \<Rightarrow> (nat \<times> jsstring) option" where
  "getCommentOpen str pos =
     (if prefix (lit ''<!--'') (drop pos str) then Some (4, lit ''<!--'') else None)"

text \<open>\<open>/(([\s\S]*?)-->)/g\<close>, capture 2: the lazy star stops at the first \<open>-->\<close>.\<close>

definition getComment :: "jsstring \<Rightarrow> nat \<Rightarrow> (nat \<times> jsstring) option" where
  "getComment str pos =
     (case indexOfSub (lit ''-->'') (drop pos str) of
        None \<Rightarrow> None
      | Some i \<Rightarrow> Some (i + 3, take i (drop pos str)))"

text \<open>\<open>/(([\s\S]*?)<\/script>)/g\<close>, capture 2; the expression has no flag \<open>i\<close>.\<close>

definition getScript :: "jsstring \<Rightarrow> nat \<Rightarrow> (nat \<times> jsstring) option" where
  "getScript str pos =
     (case indexOfSub (lit ''</script>'') (drop pos str) of
        None \<Rightarrow> None
      | Some i \<Rightarrow> Some (i + 9, take i (drop pos str)))"

text \<open>\<open>/(\s*(\/?>))/g\<close>, capture 2.\<close>

definition getTagEnd :: "jsstring \<Rightarrow> nat \<Rightarrow> (nat \<times> jsstring) option" where
  "getTagEnd str pos =
     (let ws = takeWhile isSpace (drop pos str); rest = dropWhile isSpace (drop pos str) in
      case rest of
        [] \<Rightarrow> None
      | a # rest' \<Rightarrow>
          if a = ch CHR ''>'' then Some (length ws + 1, lit ''>'')
          else if a = ch CHR ''/'' then
            (case rest' of
               [] \<Rightarrow> None
             | b # _ \<Rightarrow> if b = ch CHR ''>'' then Some (length ws + 2, lit ''/>'') else None)
          else None)"

text \<open>
  \<open>/(\s+(([a-z0-9\-_]+:)?[a-z0-9\-_]+)(\s*=\s*)?)/ig\<close>: the length, capture 2 and
  whether capture 4 took part in the match (it is then a non-empty string, hence truthy).
  \<open>matchEquals\<close> is the optional group \<open>(\s*=\s*)?\<close>: the length of its match, or
  \<open>None\<close> when no equals sign follows the white space.
\<close>

definition matchEquals :: "jsstring \<Rightarrow> nat option" where
  "matchEquals s =
     (case dropWhile isSpace s of
        [] \<Rightarrow> None
      | c # r \<Rightarrow>
          if c = ch CHR ''=''
          then Some (length (takeWhile isSpace s) + 1 + length (takeWhile isSpace r))
          else None)"

definition getAttributeName :: "jsstring \<Rightarrow> nat \<Rightarrow> (nat \<times> jsstring \<times> bool) option" where
  "getAttributeName str pos =
     (let ws = takeWhile isSpace (drop pos str); r = dropWhile isSpace (drop pos str) in
      if ws = [] then None
      else (case matchName isAttrChar r of
              None \<Rightarrow> None
            | Some nm \<Rightarrow>
                (case matchEquals (drop (length nm) r) of
                   None \<Rightarrow> Some (length ws + length nm, nm, False)
                 | Some n \<Rightarrow> Some (length ws + length nm + n, nm, True))))"

section \<open>Attribute reader\<close>

definition QUOTES :: "nat list" where
  "QUOTES = [ch CHR 0x22, ch CHR 0x27]"

text \<open>
  \<open>readAttribute\<close>. In the unquoted branch \<open>PATTERN = /(\s*([^>\s]*))/g\<close> matches the
  empty string, so \<open>exec\<close> finds a match at \<open>lastIndex = pos\<close> whenever \<open>pos\<close> is at
  most the length of the string; beyond the end \<open>exec\<close> returns \<open>null\<close>, \<open>match\<close> is
  \<open>[]\<close> and \<open>match[1].length\<close> throws a TypeError.
\<close>

definition readAttribute :: "jsstring \<Rightarrow> nat \<Rightarrow> error + (nat \<times> jsstring)" where
  "readAttribute str pos =
     (let quote = charAt str pos; pos1 = pos + 1 in
      case (case quote of None \<Rightarrow> None | Some q \<Rightarrow> if q \<in> set QUOTES then Some q else None) of
        Some q \<Rightarrow>
          (case indexOf str q pos1 of
             None \<Rightarrow> Inr (length str - pos, substringFrom str pos1)
           | Some nextQuote \<Rightarrow> Inr ((nextQuote - pos) + 1, substring str pos1 nextQuote))
      | None \<Rightarrow>
          if pos \<le> length str
          then (let ws = takeWhile isSpace (drop pos str);
                    v = takeWhile (\<lambda>c. c \<noteq> ch CHR ''>'' \<and> \<not> isSpace c)
                          (dropWhile isSpace (drop pos str))
                in Inr (length ws + length v, v))
          else Inl TypeError)"

section \<open>Tokenizer\<close>

datatype token =
    StartToken
  | OpeningTagToken jsstring
  | AttributeToken jsstring jsstring
  | OpeningTagEndToken jsstring jsstring
  | TextToken jsstring
  | CommentToken jsstring
  | ClosingTagToken jsstring
  | DoneToken

datatype State = InTag | InComment | InText | InScript

record tstate =
  pos :: nat
  state :: State
  currentTag :: jsstring

text \<open>
  A generator is modelled by what it hands to its consumer: the list of the values it
  yields, and the exception that ends it, if one does.
\<close>

type_synonym 'a generator = "'a list \<times> error option"

text \<open>
  One pass through the body of the \<open>while\<close> loop of \<open>_tokenize\<close>: the tokens yielded,
  and the next state of the loop, or \<open>None\<close> after a \<open>break\<close>.
\<close>

definition tokStep :: "jsstring \<Rightarrow> tstate \<Rightarrow> error + (token list \<times> tstate option)" where
  "tokStep html s =
     (case state s of
        InText \<Rightarrow>
          (let isBracket = (charAt html (pos s) = Some (ch CHR ''<'')) in
           case (if isBracket then getOpeningTag html (pos s) else None) of
             Some (len, nm) \<Rightarrow>
               Inr ([OpeningTagToken nm],
                    Some (s\<lparr>pos := pos s + len, currentTag := nm, state := InTag\<rparr>))
           | None \<Rightarrow>
              (case (if isBracket then getClosingTag html (pos s) else None) of
                 Some (len, nm) \<Rightarrow>
                   Inr ([ClosingTagToken nm], Some (s\<lparr>pos := pos s + len\<rparr>))
               | None \<Rightarrow>
                  (case (if isBracket then getCommentOpen html (pos s) else None) of
                     Some (len, m) \<Rightarrow>
                       Inr ([], Some (s\<lparr>pos := pos s + len, state := InComment\<rparr>))
                   | None \<Rightarrow>
                      (case getText html (pos s) of
                         Some (len, txt) \<Rightarrow>
                           Inr ([TextToken txt], Some (s\<lparr>pos := pos s + len\<rparr>))
                       | None \<Rightarrow>
                           Inr ([TextToken (substring html (pos s) (pos s + 1))],
                                Some (s\<lparr>pos := pos s + 1\<rparr>))))))
      | InComment \<Rightarrow>
          (case getComment html (pos s) of
             Some (len, body) \<Rightarrow>
               Inr ([CommentToken body], Some (s\<lparr>pos := pos s + len, state := InText\<rparr>))
           | None \<Rightarrow> Inr ([CommentToken (substringFrom html (pos s))], None))
      | InScript \<Rightarrow>
          (case getScript html (pos s) of
             Some (len, body) \<Rightarrow>
               Inr ([TextToken body, ClosingTagToken (lit ''script'')],
                    Some (s\<lparr>pos := pos s + len, state := InText\<rparr>))
           | None \<Rightarrow> Inr ([TextToken (substringFrom html (pos s))], None))
      | InTag \<Rightarrow>
          (case getAttributeName html (pos s) of
             Some (len, nm, hasVal) \<Rightarrow>
               if hasVal
               then (case readAttribute html (pos s + len) of
                       Inl e \<Rightarrow> Inl e
                     | Inr (rlen, v) \<Rightarrow>
                         Inr ([AttributeToken nm v], Some (s\<lparr>pos := pos s + len + rlen\<rparr>)))
               else Inr ([AttributeToken nm []], Some (s\<lparr>pos := pos s + len\<rparr>))
           | None \<Rightarrow>
              (case getTagEnd html (pos s) of
                 Some (len, tk) \<Rightarrow>
                   Inr ([OpeningTagEndToken (currentTag s) tk],
                        Some (s\<lparr>pos := pos s + len,
                                state := (if currentTag s = lit ''script'' then InScript
                                          else InText)\<rparr>))
               | None \<Rightarrow> Inr ([], Some (s\<lparr>state := InText\<rparr>)))))"

text \<open>
  The \<open>while\<close> loop of \<open>_tokenize\<close>, started in state \<open>s\<close>: the tokens yielded by
  each pass, pass by pass, and the exception that ends the loop, if any. The loop ends
  when \<open>pos\<close> reaches the end of the input or at a \<open>break\<close>. A pass either moves \<open>pos\<close>
  forward or leaves \<open>InTag\<close> for \<open>InText\<close>, which is why the recursion terminates.
\<close>

function run :: "jsstring \<Rightarrow> tstate \<Rightarrow> token list list \<times> error option" where
  "run html s =
     (if pos s < length html
      then (case tokStep html s of
              Inl e \<Rightarrow> ([], Some e)
            | Inr (out, None) \<Rightarrow> ([out], None)
            | Inr (out, Some s') \<Rightarrow> (case run html s' of (outs, r) \<Rightarrow> (out # outs, r)))
      else ([], None))"
  by pat_completeness auto
termination
proof (relation "measure (\<lambda>(html, s). 2 * (length html - pos s)
                            + (if state s = InTag then 1 else 0))", goal_cases)
  case 1
  show ?case by simp
next
  case (2 html s r out nxt s')
  then have st: "tokStep html s = Inr (out, Some s')" and lt: "pos s < length html"
    by simp_all
  have c1: "\<And>len x. getOpeningTag html (pos s) = Some (len, x) \<Longrightarrow> 0 < len"
    by (auto simp: getOpeningTag_def split: list.splits if_splits option.splits)
  have c2: "\<And>len x. getClosingTag html (pos s) = Some (len, x) \<Longrightarrow> 0 < len"
    by (auto simp: getClosingTag_def split: list.splits if_splits option.splits)
  have c3: "\<And>len x. getCommentOpen html (pos s) = Some (len, x) \<Longrightarrow> 0 < len"
    by (auto simp: getCommentOpen_def split: if_splits)
  have c4: "\<And>len x. getText html (pos s) = Some (len, x) \<Longrightarrow> 0 < len"
    by (auto simp: getText_def Let_def split: if_splits)
  have c5: "\<And>len x. getComment html (pos s) = Some (len, x) \<Longrightarrow> 0 < len"
    by (auto simp: getComment_def split: option.splits)
  have c6: "\<And>len x. getScript html (pos s) = Some (len, x) \<Longrightarrow> 0 < len"
    by (auto simp: getScript_def split: option.splits)
  have c7: "\<And>len x. getTagEnd html (pos s) = Some (len, x) \<Longrightarrow> 0 < len"
    by (auto simp: getTagEnd_def Let_def split: list.splits if_splits)
  have c8: "\<And>len x. getAttributeName html (pos s) = Some (len, x) \<Longrightarrow> 0 < len"
    by (auto simp: getAttributeName_def Let_def split: if_splits option.splits)
  have "pos s < pos s' \<or> (pos s' = pos s \<and> state s = InTag \<and> state s' = InText)"
  proof (cases "state s")
    case InText
    with st show ?thesis
      by (auto simp: tokStep_def Let_def split: option.splits if_splits dest!: c1 c2 c3 c4)
  next
    case InComment
    with st show ?thesis
      by (auto simp: tokStep_def split: option.splits dest!: c5)
  next
    case InScript
    with st show ?thesis
      by (auto simp: tokStep_def split: option.splits dest!: c6)
  next
    case InTag
    with st show ?thesis
      by (auto simp: tokStep_def split: option.splits if_splits sum.splits dest!: c7 c8)
  qed
  with lt show ?case by auto
qed

declare run.simps [simp del]

text \<open>
  \<open>_tokenize\<close>: \<open>start\<close>, the tokens of the loop, \<open>done\<close>. An exception in the loop would
  leave the generator before \<open>done\<close> is yielded.
\<close>

definition initial :: tstate where
  "initial = \<lparr>pos = 0, state = InText, currentTag = []\<rparr>"

definition priv_tokenize :: "jsstring \<Rightarrow> token generator" where
  "priv_tokenize html =
     (case run html initial of
        (outs, None) \<Rightarrow> (StartToken # concat outs @ [DoneToken], None)
      | (outs, Some e) \<Rightarrow> (StartToken # concat outs, Some e))"

text \<open>
  \<open>tokenize\<close> buffers text tokens in \<open>currentText\<close> (\<open>None\<close> is \<open>undefined\<close>) and
  yields the buffer in front of the next token of another type when the buffer is
  truthy, that is, a non-empty string. An empty buffer is neither yielded nor reset.
\<close>

fun coalesce :: "jsstring option \<Rightarrow> token list \<Rightarrow> token list" where
  "coalesce currentText [] = []"
| "coalesce currentText (TextToken text # tkns) =
     coalesce (case currentText of None \<Rightarrow> Some text | Some cur \<Rightarrow> Some (cur @ text)) tkns"
| "coalesce currentText (tkn # tkns) =
     (case currentText of
        None \<Rightarrow> tkn # coalesce None tkns
      | Some cur \<Rightarrow>
          if cur \<noteq> [] then TextToken cur # tkn # coalesce None tkns
          else tkn # coalesce currentText tkns)"

definition tokenize :: "jsstring \<Rightarrow> token generator" where
  "tokenize html = (case priv_tokenize html of (tkns, thrown) \<Rightarrow> (coalesce None tkns, thrown))"

section \<open>Parser\<close>

definition SELF_CLOSING_TAGS :: "jsstring list" where
  "SELF_CLOSING_TAGS = map lit
     [''area'', ''base'', ''br'', ''col'', ''command'', ''embed'', ''hr'', ''img'', ''input'',
      ''keygen'', ''link'', ''meta'', ''param'', ''source'', ''track'', ''wbr'']"

definition CLOSED_BY_PARENTS :: "jsstring list" where
  "CLOSED_BY_PARENTS = map lit
     [''p'', ''li'', ''dd'', ''rb'', ''rt'', ''rtc'', ''rp'', ''optgroup'', ''option'', ''tbody'',
      ''tfoot'', ''tr'', ''td'', ''th'']"

definition CLOSED_BY_SIBLINGS :: "(jsstring \<times> jsstring list) list" where
  "CLOSED_BY_SIBLINGS = map (\<lambda>(tag, others). (lit tag, map lit others))
     [(''p'', [''address'', ''article'', ''aside'', ''blockquote'', ''div'', ''dl'',
              ''fieldset'', ''footer'', ''form'', ''h1'', ''h2'', ''h3'', ''h4'', ''h5'', ''h6'',
              ''header'', ''hgroup'', ''hr'', ''main'', ''nav'', ''ol'', ''p'', ''pre'',
              ''section'', ''table'', ''ul'']),
      (''li'', [''li'']),
      (''dt'', [''dt'', ''dd'']),
      (''dd'', [''dt'', ''dd'']),
      (''rb'', [''rb'', ''rt'', ''rtc'', ''rp'']),
      (''rt'', [''rb'', ''rt'', ''rtc'', ''rp'']),
      (''rtc'', [''rb'', ''rtc'', ''rp'']),
      (''rp'', [''rb'', ''rt'', ''rtc'', ''rp'']),
      (''optgroup'', [''optgroup'']),
      (''option'', [''option'', ''optgroup'']),
      (''thead'', [''tbody'', ''tfoot'']),
      (''tbody'', [''tbody'', ''tfoot'']),
      (''tfoot'', [''tbody'']),
      (''tr'', [''tr'']),
      (''td'', [''td'', ''th'']),
      (''th'', [''td'', ''th''])]"

text \<open>
  \<open>CLOSED_BY_SIBLINGS\<close> is an object literal, so \<open>CLOSED_BY_SIBLINGS[tag]\<close> also finds
  the properties that every object inherits from \<open>Object.prototype\<close>, all of them
  functions. (The accessor \<open>__proto__\<close> is not among them under Deno. No tag name has
  an underscore, so only the names without one can reach the lookup.)
\<close>

definition OBJECT_PROTOTYPE_KEYS :: "jsstring list" where
  "OBJECT_PROTOTYPE_KEYS = map lit
     [''constructor'', ''hasOwnProperty'', ''isPrototypeOf'', ''propertyIsEnumerable'',
      ''toLocaleString'', ''toString'', ''valueOf'', ''__defineGetter__'',
      ''__defineSetter__'', ''__lookupGetter__'', ''__lookupSetter__'']"

definition isSelfClosing :: "jsstring \<Rightarrow> bool" where
  "isSelfClosing tag \<longleftrightarrow> tag \<in> set SELF_CLOSING_TAGS"

text \<open>
  \<open>CLOSED_BY_SIBLINGS[tag]?.has(otherTag) ?? false\<close>. The optional chain stops only at
  \<open>undefined\<close> and \<open>null\<close>. For an inherited key the lookup gives a function, which has
  no property \<open>has\<close>, and calling \<open>undefined\<close> throws a TypeError.
\<close>

definition isClosedBy :: "jsstring \<Rightarrow> jsstring \<Rightarrow> error + bool" where
  "isClosedBy tag otherTag =
     (case map_of CLOSED_BY_SIBLINGS tag of
        Some others \<Rightarrow> Inr (otherTag \<in> set others)
      | None \<Rightarrow> if tag \<in> set OBJECT_PROTOTYPE_KEYS then Inl TypeError else Inr False)"

definition isClosedByParent :: "jsstring \<Rightarrow> bool" where
  "isClosedByParent tag \<longleftrightarrow> tag \<in> set CLOSED_BY_PARENTS"

text \<open>
  The class \<open>Stack\<close>: \<open>items\<close> is an array with the top of the stack at its end.
  \<open>peek n\<close> reads \<open>items[items.length - 1 - n]\<close>, which is \<open>undefined\<close> for an index
  below zero.
\<close>

type_synonym 'a Stack = "'a list"

definition push :: "'a \<Rightarrow> 'a Stack \<Rightarrow> 'a Stack" where
  "push t items = items @ [t]"

definition pop :: "'a Stack \<Rightarrow> 'a Stack" where
  "pop items = butlast items"

definition peek :: "nat \<Rightarrow> 'a Stack \<Rightarrow> 'a option" where
  "peek n items = (if n < length items then Some (items ! (length items - 1 - n)) else None)"

definition drain :: "'a Stack \<Rightarrow> 'a list" where
  "drain items = rev items"

text \<open>
  \<open>Attributes\<close> is a plain object used as a dictionary: the list of its own properties
  in the order of their creation. \<open>assign\<close> is \<open>attributes[name] = value\<close>, which
  overwrites the value of an existing property in place and appends a new one. (The
  module is written for Deno, where \<open>Object.prototype\<close> has no accessor \<open>__proto__\<close>, so
  that the assignment creates an own property for every name.)
\<close>

type_synonym Attributes = "(jsstring \<times> jsstring) list"

fun assign :: "jsstring \<Rightarrow> jsstring \<Rightarrow> Attributes \<Rightarrow> Attributes" where
  "assign k v [] = [(k, v)]"
| "assign k v ((k', v') # kvs) =
     (if k' = k then (k, v) # kvs else (k', v') # assign k v kvs)"

text \<open>
  The order in which the properties of an object are enumerated (\<open>Object.keys\<close>,
  \<open>Object.entries\<close>, \<open>JSON.stringify\<close>, \<open>for\<close>-\<open>in\<close>) is the order of its own property
  keys: first the keys that are array indices, in ascending numeric order, then the
  other strings in the order of their creation. An array index is the decimal notation,
  without leading zeros, of an integer from 0 to 2^32 - 2.
\<close>

definition isDigit :: "nat \<Rightarrow> bool" where
  "isDigit c \<longleftrightarrow> ch CHR ''0'' \<le> c \<and> c \<le> ch CHR ''9''"

definition indexValue :: "jsstring \<Rightarrow> nat" where
  "indexValue k = foldl (\<lambda>n c. 10 * n + (c - ch CHR ''0'')) 0 k"

definition isArrayIndex :: "jsstring \<Rightarrow> bool" where
  "isArrayIndex k \<longleftrightarrow>
     k \<noteq> [] \<and> list_all isDigit k \<and> (length k = 1 \<or> take 1 k \<noteq> lit ''0'')
     \<and> indexValue k \<le> 4294967294"

definition ownKeys :: "Attributes \<Rightarrow> jsstring list" where
  "ownKeys a =
     sort_key indexValue (filter isArrayIndex (map fst a))
       @ filter (\<lambda>k. \<not> isArrayIndex k) (map fst a)"

datatype ParseToken =
    Open jsstring Attributes bool
  | Text jsstring
  | Comment jsstring
  | Close jsstring bool

record PendingTag =
  name :: jsstring
  attributes :: Attributes

record pstate =
  stack :: "PendingTag Stack"
  pendingTag :: "PendingTag option"

text \<open>
  The body of the \<open>for\<close> loop of \<open>parse\<close> for one token: the events yielded, and the
  state after it or the exception thrown. \<open>isClosedBy\<close> is called before the first
  \<open>yield\<close> of its branch. \<open>pendingTag\<close> is not cleared when its tag ends. The tokens
  \<open>start\<close> and \<open>done\<close> match no branch.
\<close>

fun parseStep :: "token \<Rightarrow> pstate \<Rightarrow> ParseToken list \<times> (error + pstate)" where
  "parseStep (OpeningTagToken nm) s =
     ([], Inr (s\<lparr>pendingTag := Some \<lparr>name = nm, attributes = []\<rparr>\<rparr>))"
| "parseStep (ClosingTagToken nm) s =
     (case peek 0 (stack s) of
        None \<Rightarrow> ([], Inr s)
      | Some current \<Rightarrow>
          if name current = nm
          then ([Close (name current) False], Inr (s\<lparr>stack := pop (stack s)\<rparr>))
          else (case peek 1 (stack s) of
                  None \<Rightarrow> ([], Inr s)
                | Some parent \<Rightarrow>
                    if name parent = nm \<and> isClosedByParent (name current)
                    then ([Close (name current) False, Close (name parent) False],
                          Inr (s\<lparr>stack := pop (pop (stack s))\<rparr>))
                    else ([], Inr s)))"
| "parseStep (OpeningTagEndToken nm tok) s =
     (case pendingTag s of
        None \<Rightarrow> ([Text tok], Inr s)
      | Some pending \<Rightarrow>
          (let isSelfClose = (tok = lit ''/>'' \<or> isSelfClosing nm) in
           case (case peek 0 (stack s) of
                   None \<Rightarrow> Inr None
                 | Some mightBeClosed \<Rightarrow>
                     (case isClosedBy (name mightBeClosed) (name pending) of
                        Inl e \<Rightarrow> Inl e
                      | Inr b \<Rightarrow> Inr (if b then Some mightBeClosed else None))) of
             Inl e \<Rightarrow> ([], Inl e)
           | Inr closed \<Rightarrow>
               (let (closing, stack1) =
                      (case closed of
                         None \<Rightarrow> ([], stack s)
                       | Some mightBeClosed \<Rightarrow>
                           ([Close (name mightBeClosed) False], pop (stack s)))
                in (closing @ [Open (name pending) (attributes pending) isSelfClose]
                      @ (if isSelfClose then [Close (name pending) True] else []),
                    Inr (s\<lparr>stack := (if isSelfClose then stack1 else push pending stack1)\<rparr>)))))"
| "parseStep (TextToken txt) s = ([Text txt], Inr s)"
| "parseStep (CommentToken txt) s = ([Comment txt], Inr s)"
| "parseStep (AttributeToken nm v) s =
     (case pendingTag s of
        None \<Rightarrow> ([], Inr s)
      | Some pending \<Rightarrow>
          ([], Inr (s\<lparr>pendingTag :=
                       Some (pending\<lparr>attributes := assign nm v (attributes pending)\<rparr>)\<rparr>)))"
| "parseStep StartToken s = ([], Inr s)"
| "parseStep DoneToken s = ([], Inr s)"

fun parseLoop :: "pstate \<Rightarrow> token list \<Rightarrow> ParseToken list \<times> (error + pstate)" where
  "parseLoop s [] = ([], Inr s)"
| "parseLoop s (tkn # tkns) =
     (case parseStep tkn s of
        (out, Inl e) \<Rightarrow> (out, Inl e)
      | (out, Inr s') \<Rightarrow> (case parseLoop s' tkns of (rest, r) \<Rightarrow> (out @ rest, r)))"

text \<open>
  \<open>parse\<close>: the loop over the tokens of \<open>tokenize\<close>, then the loop over \<open>stack.drain()\<close>.
  An exception leaves the generator at once, so nothing is drained after it.
\<close>

definition parse :: "jsstring \<Rightarrow> ParseToken generator" where
  "parse html =
     (case tokenize html of
        (tkns, thrown) \<Rightarrow>
          (case parseLoop \<lparr>stack = [], pendingTag = None\<rparr> tkns of
             (evs, Inl e) \<Rightarrow> (evs, Some e)
           | (evs, Inr s) \<Rightarrow>
               (case thrown of
                  Some e \<Rightarrow> (evs, Some e)
                | None \<Rightarrow>
                    (evs @ map (\<lambda>next. Close (name next) False) (drain (stack s)), None))))"

section \<open>Properties of token and event sequences\<close>

text \<open>
  \<open>wellNested opened evs\<close>: read from left to right with the names of the elements
  \<open>opened\<close> so far (innermost first), every \<open>Close\<close> that is not self-closing carries
  the name of the innermost open element and closes it, an \<open>Open\<close> that is
  self-closing is followed at once by its own self-closing \<open>Close\<close>, and no element is
  left open at the end.
\<close>

fun wellNested :: "jsstring list \<Rightarrow> ParseToken list \<Rightarrow> bool" where
  "wellNested opened [] = (opened = [])"
| "wellNested opened (Open nm a False # evs) = wellNested (nm # opened) evs"
| "wellNested opened (Open nm a True # Close nm' True # evs) =
     (nm' = nm \<and> wellNested opened evs)"
| "wellNested opened (Open nm a True # evs) = False"
| "wellNested opened (Close nm True # evs) = False"
| "wellNested opened (Close nm False # evs) =
     (case opened of [] \<Rightarrow> False | inner # outer \<Rightarrow> inner = nm \<and> wellNested outer evs)"
| "wellNested opened (Text txt # evs) = wellNested opened evs"
| "wellNested opened (Comment txt # evs) = wellNested opened evs"

text \<open>Two text tokens, or two text events, next to each other.\<close>

fun adjacentText :: "token list \<Rightarrow> bool" where
  "adjacentText (TextToken a # TextToken b # tkns) = True"
| "adjacentText (tkn # tkns) = adjacentText tkns"
| "adjacentText [] = False"

fun adjacentTextEvents :: "ParseToken list \<Rightarrow> bool" where
  "adjacentTextEvents (Text a # Text b # evs) = True"
| "adjacentTextEvents (ev # evs) = adjacentTextEvents evs"
| "adjacentTextEvents [] = False"

text \<open>A name with an upper-case ASCII letter in it.\<close>

definition hasUpperCase :: "jsstring \<Rightarrow> bool" where
  "hasUpperCase nm \<longleftrightarrow> list_ex (\<lambda>c. ch CHR ''A'' \<le> c \<and> c \<le> ch CHR ''Z'') nm"

section \<open>Evaluation and basic facts\<close>

lemmas ev = parse_def tokenize_def priv_tokenize_def initial_def run.simps tokStep_def
  getOpeningTag_def getText_def getClosingTag_def getCommentOpen_def getComment_def
  getScript_def getTagEnd_def getAttributeName_def matchEquals_def matchName_def
  readAttribute_def QUOTES_def charAt_def substring_def substringFrom_def indexOf_def lit_def
  isSpace_def isTagChar_def isAttrChar_def isSelfClosing_def isClosedBy_def
  isClosedByParent_def SELF_CLOSING_TAGS_def CLOSED_BY_PARENTS_def CLOSED_BY_SIBLINGS_def
  OBJECT_PROTOTYPE_KEYS_def push_def pop_def peek_def drain_def Let_def

lemma peek_0: "peek 0 items = (if items = [] then None else Some (last items))"
  by (simp add: peek_def last_conv_nth)

lemma peek_1:
  "peek (Suc 0) items = (if length items < 2 then None else Some (last (butlast items)))"
proof (cases items rule: rev_cases)
  case Nil
  then show ?thesis by (simp add: peek_def)
next
  case (snoc ys y)
  then show ?thesis
    by (cases ys rule: rev_cases) (simp_all add: peek_def nth_append butlast_append)
qed

lemmas stack_simps = peek_0 peek_1 pop_def push_def butlast_append

section \<open>Facts about the chunkers and the tokenizer loop\<close>

lemma takeWhile_dropWhile_length:
  "length (takeWhile P xs) + length (dropWhile P xs) = length xs"
  by (induction xs) auto

lemma matchName_prefix: "matchName P s = Some nm \<Longrightarrow> nm = take (length nm) s \<and> nm \<noteq> []"
proof -
  assume a: "matchName P s = Some nm"
  have tw: "takeWhile P s = take (length (takeWhile P s)) s" by (rule takeWhile_eq_take)
  show ?thesis
  proof (cases "dropWhile P s")
    case Nil
    with a have "nm = takeWhile P s" "nm \<noteq> []"
      by (auto simp: matchName_def Let_def split: if_splits)
    with tw show ?thesis by metis
  next
    case (Cons c rest)
    from a Cons have "nm = takeWhile P s \<and> nm \<noteq> [] \<or> nm = takeWhile P s @ c # takeWhile P rest"
      by (auto simp: matchName_def Let_def split: if_splits)
    then show ?thesis
    proof
      assume "nm = takeWhile P s \<and> nm \<noteq> []"
      with tw show ?thesis by metis
    next
      assume n: "nm = takeWhile P s @ c # takeWhile P rest"
      have "takeWhile P s @ dropWhile P s = s" by (rule takeWhile_dropWhile_id)
      with Cons have "takeWhile P s @ c # rest = s" by metis
      moreover have "takeWhile P rest @ dropWhile P rest = rest" by (rule takeWhile_dropWhile_id)
      ultimately have "nm @ dropWhile P rest = s" using n by (metis append.assoc append_Cons)
      then have "take (length nm) s = nm" by (metis append_eq_conv_conj)
      with n show ?thesis by simp
    qed
  qed
qed

lemma matchName_length:
  assumes "matchName P s = Some nm"
  shows "0 < length nm \<and> length nm \<le> length s"
proof -
  from matchName_prefix [OF assms] have e: "nm = take (length nm) s" and ne: "nm \<noteq> []"
    by blast+
  have "length (take (length nm) s) = min (length s) (length nm)" by (rule length_take)
  with e have "length nm = min (length s) (length nm)" by metis
  then have "length nm \<le> length s" by arith
  with ne show ?thesis by blast
qed

lemma matchEquals_length: "matchEquals s = Some n \<Longrightarrow> 0 < n \<and> n \<le> length s"
proof -
  assume a: "matchEquals s = Some n"
  then obtain c r where d: "dropWhile isSpace s = c # r"
    and n: "n = length (takeWhile isSpace s) + 1 + length (takeWhile isSpace r)"
    by (auto simp: matchEquals_def split: list.splits if_splits)
  have "length (takeWhile isSpace s) + length (dropWhile isSpace s) = length s"
    by (rule takeWhile_dropWhile_length)
  moreover have "length (takeWhile isSpace r) \<le> length r" by (rule length_takeWhile_le)
  ultimately show ?thesis using d n by simp
qed

lemma getOpeningTag_length: "getOpeningTag html p = Some (len, x) \<Longrightarrow> 0 < len"
  by (auto simp: getOpeningTag_def split: list.splits if_splits option.splits)

lemma getClosingTag_length: "getClosingTag html p = Some (len, x) \<Longrightarrow> 0 < len"
  by (auto simp: getClosingTag_def split: list.splits if_splits option.splits)

lemma getCommentOpen_length: "getCommentOpen html p = Some (len, x) \<Longrightarrow> 0 < len"
  by (auto simp: getCommentOpen_def split: if_splits)

lemma getText_length: "getText html p = Some (len, x) \<Longrightarrow> 0 < len"
  by (auto simp: getText_def Let_def split: if_splits)

lemma getComment_length: "getComment html p = Some (len, x) \<Longrightarrow> 0 < len"
  by (auto simp: getComment_def split: option.splits)

lemma getScript_length: "getScript html p = Some (len, x) \<Longrightarrow> 0 < len"
  by (auto simp: getScript_def split: option.splits)

lemma getTagEnd_length: "getTagEnd html p = Some (len, x) \<Longrightarrow> 0 < len"
  by (auto simp: getTagEnd_def Let_def split: list.splits if_splits)

lemma getAttributeName_length:
  assumes "getAttributeName html p = Some (len, x)"
  shows "0 < len \<and> p + len \<le> length html"
proof -
  let ?d = "drop p html"
  let ?ws = "takeWhile isSpace ?d"
  let ?r = "dropWhile isSpace ?d"
  from assms obtain nm where ws: "?ws \<noteq> []" and nm: "matchName isAttrChar ?r = Some nm"
    and len: "len = length ?ws + length nm
               \<or> (\<exists>n. matchEquals (drop (length nm) ?r) = Some n \<and> len = length ?ws + length nm + n)"
    by (auto simp: getAttributeName_def Let_def split: if_splits option.splits)
  have d: "length ?ws + length ?r = length ?d" by (rule takeWhile_dropWhile_length)
  from nm have n1: "length nm \<le> length ?r" using matchName_length by blast
  have p: "p < length html"
  proof (rule ccontr)
    assume "\<not> p < length html"
    then have "?d = []" by simp
    with ws show False by simp
  qed
  from ws have w: "0 < length ?ws" by simp
  from len show ?thesis
  proof
    assume "len = length ?ws + length nm"
    with d n1 p w show ?thesis by simp
  next
    assume "\<exists>n. matchEquals (drop (length nm) ?r) = Some n \<and> len = length ?ws + length nm + n"
    then obtain n where n: "matchEquals (drop (length nm) ?r) = Some n"
      and l: "len = length ?ws + length nm + n" by blast
    from n have "n \<le> length ?r - length nm" using matchEquals_length by fastforce
    with l d n1 p w show ?thesis by simp
  qed
qed

lemma readAttribute_no_throw: "p \<le> length str \<Longrightarrow> \<exists>r. readAttribute str p = Inr r"
  by (auto simp: readAttribute_def Let_def split: option.splits)

lemma tokStep_InText:
  assumes "state s = InText"
  shows "\<exists>out s'. tokStep html s = Inr (out, Some s') \<and> pos s < pos s' \<and> length out \<le> 1
            \<and> state s' \<noteq> InScript"
  using assms
  by (auto simp: tokStep_def Let_def split: option.splits
      dest!: getOpeningTag_length getClosingTag_length getCommentOpen_length getText_length)

lemma tokStep_InComment:
  assumes "state s = InComment"
  shows "\<exists>out. length out = 1 \<and> (tokStep html s = Inr (out, None)
            \<or> (\<exists>s'. tokStep html s = Inr (out, Some s') \<and> pos s < pos s' \<and> state s' = InText))"
  using assms
  by (auto simp: tokStep_def split: option.splits dest!: getComment_length)

lemma tokStep_InScript:
  assumes "state s = InScript"
  shows "\<exists>out. length out \<le> 2 \<and> (tokStep html s = Inr (out, None)
            \<or> (\<exists>s'. tokStep html s = Inr (out, Some s') \<and> pos s < pos s' \<and> state s' = InText))"
  using assms
  by (auto simp: tokStep_def split: option.splits dest!: getScript_length)

lemma tokStep_InTag:
  assumes "state s = InTag"
  shows "\<exists>out s'. tokStep html s = Inr (out, Some s') \<and> length out \<le> 1
            \<and> (pos s < pos s' \<or> (pos s' = pos s \<and> state s' = InText \<and> out = []))
            \<and> (state s' = InScript \<longrightarrow> currentTag s = lit ''script'')"
proof (cases "getAttributeName html (pos s)")
  case None
  show ?thesis
  proof (cases "getTagEnd html (pos s)")
    case N2: None
    with None assms show ?thesis by (simp add: tokStep_def)
  next
    case (Some r)
    obtain len tk where r: "r = (len, tk)" by (cases r)
    from getTagEnd_length Some r have "0 < len" by blast
    with None assms Some r show ?thesis by (simp add: tokStep_def)
  qed
next
  case (Some r)
  obtain len nm hv where r: "r = (len, nm, hv)" by (cases r)
  from getAttributeName_length Some r have l: "0 < len" "pos s + len \<le> length html" by blast+
  show ?thesis
  proof (cases hv)
    case False
    with assms Some r l show ?thesis by (simp add: tokStep_def)
  next
    case True
    from readAttribute_no_throw [OF l(2)] obtain rlen v
      where "readAttribute html (pos s + len) = Inr (rlen, v)" by auto
    with True assms Some r l show ?thesis by (simp add: tokStep_def)
  qed
qed

lemma tokStep_total:
  "\<exists>out nxt. tokStep html s = Inr (out, nxt) \<and> length out \<le> 2
     \<and> (\<forall>s'. nxt = Some s' \<longrightarrow>
           (pos s < pos s' \<or> (pos s' = pos s \<and> state s = InTag \<and> state s' = InText \<and> out = []))
           \<and> (state s' = InScript \<longrightarrow> state s = InTag \<and> currentTag s = lit ''script''))"
proof (cases "state s")
  case InTag
  from tokStep_InTag [OF this, of html] show ?thesis using InTag by fastforce
next
  case InComment
  from tokStep_InComment [OF this, of html] show ?thesis by fastforce
next
  case InText
  from tokStep_InText [OF this, of html] show ?thesis by fastforce
next
  case InScript
  from tokStep_InScript [OF this, of html] show ?thesis by fastforce
qed

lemma run_facts:
  "snd (run html s) = None
   \<and> length (fst (run html s)) \<le> 2 * (length html - pos s) + (if state s = InTag then 1 else 0)
   \<and> (\<forall>out \<in> set (fst (run html s)). length out \<le> 2)"
proof (induction html s rule: run.induct)
  case (1 html s)
  show ?case
  proof (cases "pos s < length html")
    case False
    then show ?thesis by (simp add: run.simps)
  next
    case True
    from tokStep_total [of html s] obtain out nxt
      where st: "tokStep html s = Inr (out, nxt)" and l: "length out \<le> 2"
        and pr: "\<forall>s'. nxt = Some s' \<longrightarrow>
           (pos s < pos s' \<or> (pos s' = pos s \<and> state s = InTag \<and> state s' = InText \<and> out = []))"
      by blast
    show ?thesis
    proof (cases nxt)
      case None
      with True st l show ?thesis by (simp add: run.simps)
    next
      case (Some s')
      from "1.IH" [OF True st refl Some]
      have ih: "snd (run html s') = None"
        "length (fst (run html s')) \<le> 2 * (length html - pos s') + (if state s' = InTag then 1 else 0)"
        "\<forall>out \<in> set (fst (run html s')). length out \<le> 2"
        by blast+
      obtain outs r where rs: "run html s' = (outs, r)" by (cases "run html s'")
      from True st Some rs have e: "run html s = (out # outs, r)"
        by (simp add: run.simps)
      from pr Some have "pos s < pos s' \<or> (pos s' = pos s \<and> state s = InTag \<and> state s' = InText)"
        by blast
      with True ih(2) rs have "Suc (length outs) \<le> 2 * (length html - pos s) + (if state s = InTag then 1 else 0)"
        by (auto split: if_splits)
      with e ih rs l show ?thesis by simp
    qed
  qed
qed

lemma length_concat_le:
  "\<forall>x \<in> set xs. length x \<le> k \<Longrightarrow> length (concat xs) \<le> k * length xs"
  by (induction xs) auto

lemma run_initial_iterations: "length (fst (run html initial)) \<le> 2 * length html"
  using run_facts [of html initial] by (simp add: initial_def)

lemma priv_tokenize_facts:
  "snd (priv_tokenize html) = None
   \<and> fst (priv_tokenize html) = StartToken # concat (fst (run html initial)) @ [DoneToken]
   \<and> length (fst (priv_tokenize html)) \<le> 4 * length html + 2"
proof -
  obtain outs r where rs: "run html initial = (outs, r)" by (cases "run html initial")
  from run_facts [of html initial] rs have r: "r = None"
    and b: "\<forall>out \<in> set outs. length out \<le> 2" by simp_all
  from run_initial_iterations [of html] rs have "length outs \<le> 2 * length html" by simp
  moreover from length_concat_le [OF b] have "length (concat outs) \<le> 2 * length outs" .
  ultimately have "length (concat outs) \<le> 4 * length html" by simp
  with rs r show ?thesis by (simp add: priv_tokenize_def)
qed

lemma coalesce_length:
  "length (coalesce cur tkns) \<le> length tkns + (case cur of None \<Rightarrow> 0 | Some c \<Rightarrow> 1)"
  by (induction cur tkns rule: coalesce.induct) (auto split: option.splits)

lemma coalesce_no_adjacentText: "\<not> adjacentText (coalesce cur tkns)"
  by (induction cur tkns rule: coalesce.induct) (auto split: option.splits)

lemma tokenize_facts:
  "snd (tokenize html) = None
   \<and> fst (tokenize html) = coalesce None (StartToken # concat (fst (run html initial)) @ [DoneToken])
   \<and> length (fst (tokenize html)) \<le> 4 * length html + 2"
proof -
  have e: "tokenize html = (coalesce None (fst (priv_tokenize html)), snd (priv_tokenize html))"
    by (simp add: tokenize_def split: prod.splits)
  from priv_tokenize_facts [of html]
  have a: "snd (priv_tokenize html) = None"
    and b: "fst (priv_tokenize html) = StartToken # concat (fst (run html initial)) @ [DoneToken]"
    and c: "length (fst (priv_tokenize html)) \<le> 4 * length html + 2"
    by blast+
  from coalesce_length [of None "fst (priv_tokenize html)"] c
  have d: "length (coalesce None (fst (priv_tokenize html))) \<le> 4 * length html + 2"
    by simp
  show ?thesis unfolding e using a b d by simp
qed

section \<open>Facts about the parser loop\<close>

lemma parseStep_length:
  "parseStep tkn s = (out, r) \<Longrightarrow>
   length out + (case r of Inl e \<Rightarrow> 0 | Inr s' \<Rightarrow> length (stack s')) \<le> length (stack s) + 2"
  by (cases tkn)
     (auto simp: stack_simps Let_def split: option.splits if_splits sum.splits)

lemma parseLoop_length:
  "parseLoop s tkns = (evs, r) \<Longrightarrow>
   length evs + (case r of Inl e \<Rightarrow> 0 | Inr s' \<Rightarrow> length (stack s'))
     \<le> length (stack s) + 2 * length tkns"
proof (induction tkns arbitrary: s evs r)
  case Nil
  then show ?case by auto
next
  case (Cons tkn tkns)
  obtain out r1 where st: "parseStep tkn s = (out, r1)" by (cases "parseStep tkn s")
  show ?case
  proof (cases r1)
    case (Inl e)
    with Cons.prems st parseStep_length [OF st] show ?thesis by auto
  next
    case (Inr s1)
    obtain rest r2 where lp: "parseLoop s1 tkns = (rest, r2)" by (cases "parseLoop s1 tkns")
    from Cons.prems st Inr lp have e: "evs = out @ rest" "r = r2" by auto
    from Cons.IH [OF lp] parseStep_length [OF st] Inr e show ?thesis by auto
  qed
qed

lemma parseStep_wellNested:
  assumes "parseStep tkn s = (out, Inr s')"
    and "wellNested (rev (map name (stack s'))) evs"
  shows "wellNested (rev (map name (stack s))) (out @ evs)"
proof (cases "stack s" rule: rev_cases)
  case Nil
  with assms show ?thesis
    by (cases tkn) (auto simp: stack_simps Let_def split: option.splits if_splits sum.splits)
next
  case (snoc rest1 current)
  show ?thesis
  proof (cases rest1 rule: rev_cases)
    case Nil
    with snoc assms show ?thesis
      by (cases tkn) (auto simp: stack_simps Let_def split: option.splits if_splits sum.splits)
  next
    case (snoc rest2 parent)
    with \<open>stack s = rest1 @ [current]\<close> assms show ?thesis
      by (cases tkn) (auto simp: stack_simps Let_def split: option.splits if_splits sum.splits)
  qed
qed

lemma parseLoop_wellNested:
  "parseLoop s tkns = (out, Inr s') \<Longrightarrow> wellNested (rev (map name (stack s'))) evs
   \<Longrightarrow> wellNested (rev (map name (stack s))) (out @ evs)"
proof (induction tkns arbitrary: s out)
  case Nil
  then show ?case by auto
next
  case (Cons tkn tkns)
  obtain o1 r1 where st: "parseStep tkn s = (o1, r1)" by (cases "parseStep tkn s")
  from Cons.prems(1) st obtain s1 where r1: "r1 = Inr s1" by (cases r1) auto
  obtain o2 r2 where lp: "parseLoop s1 tkns = (o2, r2)" by (cases "parseLoop s1 tkns")
  from Cons.prems(1) st r1 lp have e: "out = o1 @ o2" "r2 = Inr s'" by auto
  from Cons.IH [OF lp [unfolded e(2)] Cons.prems(2)]
  have "wellNested (rev (map name (stack s1))) (o2 @ evs)" .
  from parseStep_wellNested [OF st [unfolded r1] this] e show ?case by simp
qed

lemma drain_wellNested:
  "wellNested (rev (map name items)) (map (\<lambda>next. Close (name next) False) (drain items))"
  by (induction items rule: rev_induct) (auto simp: drain_def)

text \<open>
  Whenever \<open>parse\<close> runs to its end, its events are well nested: every step keeps the
  events yielded so far consistent with the stack, and the drain closes what is left,
  innermost first.
\<close>

lemma parse_wellNested_if_completed:
  assumes "parse html = (evs, None)"
  shows "wellNested [] evs"
proof -
  obtain tkns thrown where t: "tokenize html = (tkns, thrown)" by (cases "tokenize html")
  obtain out r where l: "parseLoop \<lparr>stack = [], pendingTag = None\<rparr> tkns = (out, r)"
    by (cases "parseLoop \<lparr>stack = [], pendingTag = None\<rparr> tkns")
  from assms t l obtain s' where r: "r = Inr s'"
    and e: "evs = out @ map (\<lambda>next. Close (name next) False) (drain (stack s'))"
    by (auto simp: parse_def split: sum.splits option.splits)
  from parseLoop_wellNested [OF l [unfolded r] drain_wellNested] e show ?thesis by simp
qed

lemma isClosedBy_no_throw:
  "tag \<notin> set OBJECT_PROTOTYPE_KEYS \<Longrightarrow> \<exists>b. isClosedBy tag other = Inr b"
  by (auto simp: isClosedBy_def split: option.splits)

lemma parseStep_no_throw:
  assumes "\<forall>f \<in> set (stack s). name f \<notin> set OBJECT_PROTOTYPE_KEYS"
    and "\<forall>p. pendingTag s = Some p \<longrightarrow> name p \<notin> set OBJECT_PROTOTYPE_KEYS"
    and "\<forall>nm. tkn = OpeningTagToken nm \<longrightarrow> nm \<notin> set OBJECT_PROTOTYPE_KEYS"
  shows "\<exists>out s'. parseStep tkn s = (out, Inr s')
           \<and> (\<forall>f \<in> set (stack s'). name f \<notin> set OBJECT_PROTOTYPE_KEYS)
           \<and> (\<forall>p. pendingTag s' = Some p \<longrightarrow> name p \<notin> set OBJECT_PROTOTYPE_KEYS)"
proof (cases tkn)
  case (OpeningTagEndToken nm tok)
  show ?thesis
  proof (cases "pendingTag s")
    case None
    with OpeningTagEndToken assms show ?thesis by simp
  next
    case (Some pending)
    show ?thesis
    proof (cases "stack s" rule: rev_cases)
      case Nil
      with Some OpeningTagEndToken assms show ?thesis by (simp add: stack_simps Let_def)
    next
      case (snoc rest T)
      with assms(1) have "name T \<notin> set OBJECT_PROTOTYPE_KEYS" by simp
      from isClosedBy_no_throw [OF this] obtain b
        where "isClosedBy (name T) (name pending) = Inr b" by blast
      with snoc Some OpeningTagEndToken assms show ?thesis
        by (auto simp: stack_simps Let_def)
    qed
  qed
next
  case (ClosingTagToken nm)
  have "set (butlast (stack s)) \<subseteq> set (stack s)"
    "set (butlast (butlast (stack s))) \<subseteq> set (stack s)"
    by (meson in_set_butlastD subsetI)+
  with ClosingTagToken assms show ?thesis
    by (auto simp: stack_simps split: option.splits)
qed (use assms in \<open>auto split: option.splits\<close>)

lemma parseLoop_no_throw:
  "\<forall>f \<in> set (stack s). name f \<notin> set OBJECT_PROTOTYPE_KEYS \<Longrightarrow>
   \<forall>p. pendingTag s = Some p \<longrightarrow> name p \<notin> set OBJECT_PROTOTYPE_KEYS \<Longrightarrow>
   \<forall>nm. OpeningTagToken nm \<in> set tkns \<longrightarrow> nm \<notin> set OBJECT_PROTOTYPE_KEYS \<Longrightarrow>
   \<exists>out s'. parseLoop s tkns = (out, Inr s')"
proof (induction tkns arbitrary: s)
  case Nil
  then show ?case by simp
next
  case (Cons tkn tkns)
  from Cons.prems(3) have "\<forall>nm. tkn = OpeningTagToken nm \<longrightarrow> nm \<notin> set OBJECT_PROTOTYPE_KEYS"
    by simp
  from parseStep_no_throw [OF Cons.prems(1,2) this] obtain o1 s1
    where st: "parseStep tkn s = (o1, Inr s1)"
      and i1: "\<forall>f \<in> set (stack s1). name f \<notin> set OBJECT_PROTOTYPE_KEYS"
      and i2: "\<forall>p. pendingTag s1 = Some p \<longrightarrow> name p \<notin> set OBJECT_PROTOTYPE_KEYS"
    by blast
  from Cons.prems(3) have "\<forall>nm. OpeningTagToken nm \<in> set tkns \<longrightarrow> nm \<notin> set OBJECT_PROTOTYPE_KEYS"
    by simp
  from Cons.IH [OF i1 i2 this] obtain o2 s2 where "parseLoop s1 tkns = (o2, Inr s2)" by blast
  with st show ?case by simp
qed

section \<open>The parser's handling of single tokens\<close>

text \<open>
  C3. At an \<open>opening-tag-end\<close> token, when the frame \<open>T\<close> on top of the stack is closed
  by the pending tag (\<open>isClosedBy\<close> of their names holds), the parser pops \<open>T\<close>, yields
  \<open>Close T\<close> (not self-closing) and then the \<open>Open\<close> of the pending tag; the rest of the
  branch follows. For \<open><p><div>\<close> the events are open p, close p, open div, close div.
\<close>

theorem C3_sibling_close:
  "(\<forall>s rest T pending nm tok.
      stack s = rest @ [T] \<and> pendingTag s = Some pending
      \<and> isClosedBy (name T) (name pending) = Inr True \<longrightarrow>
      parseStep (OpeningTagEndToken nm tok) s =
        (Close (name T) False
           # Open (name pending) (attributes pending) (tok = lit ''/>'' \<or> isSelfClosing nm)
           # (if tok = lit ''/>'' \<or> isSelfClosing nm then [Close (name pending) True] else []),
         Inr (s\<lparr>stack := (if tok = lit ''/>'' \<or> isSelfClosing nm then rest
                            else rest @ [pending])\<rparr>)))
   \<and> parse (lit ''<p><div>'') =
       ([Open (lit ''p'') [] False, Close (lit ''p'') False,
         Open (lit ''div'') [] False, Close (lit ''div'') False], None)"
proof (intro conjI allI impI)
  fix s :: pstate and rest T pending nm tok
  assume "stack s = rest @ [T] \<and> pendingTag s = Some pending
      \<and> isClosedBy (name T) (name pending) = Inr True"
  then show "parseStep (OpeningTagEndToken nm tok) s =
        (Close (name T) False
           # Open (name pending) (attributes pending) (tok = lit ''/>'' \<or> isSelfClosing nm)
           # (if tok = lit ''/>'' \<or> isSelfClosing nm then [Close (name pending) True] else []),
         Inr (s\<lparr>stack := (if tok = lit ''/>'' \<or> isSelfClosing nm then rest
                            else rest @ [pending])\<rparr>))"
    by (simp add: stack_simps)
next
  show "parse (lit ''<p><div>'') =
       ([Open (lit ''p'') [] False, Close (lit ''p'') False,
         Open (lit ''div'') [] False, Close (lit ''div'') False], None)"
    by (simp add: ev)
qed

theorem C3_sibling_close_witness:
  "stack \<lparr>stack = [\<lparr>name = lit ''p'', attributes = []\<rparr>],
           pendingTag = Some \<lparr>name = lit ''div'', attributes = []\<rparr>\<rparr>
     = [] @ [\<lparr>name = lit ''p'', attributes = []\<rparr>]
   \<and> isClosedBy (lit ''p'') (lit ''div'') = Inr True
   \<and> parseStep (OpeningTagEndToken (lit ''div'') (lit ''>''))
        \<lparr>stack = [\<lparr>name = lit ''p'', attributes = []\<rparr>],
         pendingTag = Some \<lparr>name = lit ''div'', attributes = []\<rparr>\<rparr>
     = ([Close (lit ''p'') False, Open (lit ''div'') [] False],
        Inr \<lparr>stack = [\<lparr>name = lit ''div'', attributes = []\<rparr>],
             pendingTag = Some \<lparr>name = lit ''div'', attributes = []\<rparr>\<rparr>)"
proof -
  have h: "isClosedBy (lit ''p'') (lit ''div'') = Inr True"
    by (simp add: ev)
  have sc: "\<not> isSelfClosing (lit ''div'')" "lit ''>'' \<noteq> lit ''/>''"
    by (simp_all add: ev)
  show ?thesis
    using h sc
      C3_sibling_close [THEN conjunct1, rule_format,
        of "\<lparr>stack = [\<lparr>name = lit ''p'', attributes = []\<rparr>],
             pendingTag = Some \<lparr>name = lit ''div'', attributes = []\<rparr>\<rparr>"
           "[]" "\<lparr>name = lit ''p'', attributes = []\<rparr>"
           "\<lparr>name = lit ''div'', attributes = []\<rparr>" "lit ''div''" "lit ''>''"]
    by simp
qed

text \<open>
  C4. At a \<open>closing-tag\<close> token the parser pops and closes the top frame when it has the
  name of the token; otherwise, when the frame below has that name and the top frame is
  closed by its parent, it pops and closes both, the top one first; otherwise it yields
  nothing and leaves the stack alone. For \<open><ul><li><li></ul>a\<close> the events are open ul,
  open li, close li, open li, close li, close ul, text a.
\<close>

theorem C4_closing_tag:
  "(\<forall>s rest current nm.
      stack s = rest @ [current] \<and> name current = nm \<longrightarrow>
      parseStep (ClosingTagToken nm) s = ([Close nm False], Inr (s\<lparr>stack := rest\<rparr>)))
   \<and> (\<forall>s rest parent current nm.
      stack s = rest @ [parent, current] \<and> name current \<noteq> nm \<and> name parent = nm
      \<and> isClosedByParent (name current) \<longrightarrow>
      parseStep (ClosingTagToken nm) s =
        ([Close (name current) False, Close nm False], Inr (s\<lparr>stack := rest\<rparr>)))
   \<and> (\<forall>s nm.
      (stack s = []
       \<or> (\<exists>rest current. stack s = rest @ [current] \<and> name current \<noteq> nm
            \<and> (rest = [] \<or> name (last rest) \<noteq> nm \<or> \<not> isClosedByParent (name current)))) \<longrightarrow>
      parseStep (ClosingTagToken nm) s = ([], Inr s))
   \<and> parse (lit ''<ul><li><li></ul>a'') =
       ([Open (lit ''ul'') [] False, Open (lit ''li'') [] False, Close (lit ''li'') False,
         Open (lit ''li'') [] False, Close (lit ''li'') False, Close (lit ''ul'') False,
         Text (lit ''a'')], None)"
proof (intro conjI allI impI)
  fix s :: pstate and rest current nm
  assume "stack s = rest @ [current] \<and> name current = nm"
  then show "parseStep (ClosingTagToken nm) s = ([Close nm False], Inr (s\<lparr>stack := rest\<rparr>))"
    by (auto simp: stack_simps)
next
  fix s :: pstate and rest parent current nm
  assume "stack s = rest @ [parent, current] \<and> name current \<noteq> nm \<and> name parent = nm
      \<and> isClosedByParent (name current)"
  then show "parseStep (ClosingTagToken nm) s =
        ([Close (name current) False, Close nm False], Inr (s\<lparr>stack := rest\<rparr>))"
    by (auto simp: stack_simps)
next
  fix s :: pstate and nm
  assume a: "stack s = []
       \<or> (\<exists>rest current. stack s = rest @ [current] \<and> name current \<noteq> nm
            \<and> (rest = [] \<or> name (last rest) \<noteq> nm \<or> \<not> isClosedByParent (name current)))"
  show "parseStep (ClosingTagToken nm) s = ([], Inr s)"
  proof (cases "stack s = []")
    case True
    then show ?thesis by (simp add: stack_simps)
  next
    case False
    with a obtain rest current where st: "stack s = rest @ [current]" "name current \<noteq> nm"
      and c: "rest = [] \<or> name (last rest) \<noteq> nm \<or> \<not> isClosedByParent (name current)"
      by blast
    show ?thesis
    proof (cases rest rule: rev_cases)
      case Nil
      with st show ?thesis by (simp add: stack_simps)
    next
      case (snoc rest' parent)
      with st c show ?thesis by (auto simp: stack_simps)
    qed
  qed
next
  show "parse (lit ''<ul><li><li></ul>a'') =
       ([Open (lit ''ul'') [] False, Open (lit ''li'') [] False, Close (lit ''li'') False,
         Open (lit ''li'') [] False, Close (lit ''li'') False, Close (lit ''ul'') False,
         Text (lit ''a'')], None)"
    by (simp add: ev)
qed


theorem C4_closing_tag_witness:
  "(let ul = \<lparr>name = lit ''ul'', attributes = []\<rparr>; li = \<lparr>name = lit ''li'', attributes = []\<rparr>;
        s = \<lparr>stack = [ul, li], pendingTag = Some li\<rparr>
    in isClosedByParent (lit ''li'') \<and> lit ''li'' \<noteq> lit ''ul'' \<and> lit ''li'' \<noteq> lit ''x''
       \<and> parseStep (ClosingTagToken (lit ''li'')) s
           = ([Close (lit ''li'') False], Inr (s\<lparr>stack := [ul]\<rparr>))
       \<and> parseStep (ClosingTagToken (lit ''ul'')) s
           = ([Close (lit ''li'') False, Close (lit ''ul'') False], Inr (s\<lparr>stack := []\<rparr>))
       \<and> parseStep (ClosingTagToken (lit ''x'')) s = ([], Inr s))"
proof -
  define ul where "ul = \<lparr>name = lit ''ul'', attributes = []\<rparr>"
  define li where "li = \<lparr>name = lit ''li'', attributes = []\<rparr>"
  define s where "s = \<lparr>stack = [ul, li], pendingTag = Some li\<rparr>"
  have h: "isClosedByParent (lit ''li'')" "lit ''li'' \<noteq> lit ''ul''" "lit ''li'' \<noteq> lit ''x''"
    "lit ''ul'' \<noteq> lit ''x''"
    by (simp_all add: ev)
  have a: "parseStep (ClosingTagToken (lit ''li'')) s
             = ([Close (lit ''li'') False], Inr (s\<lparr>stack := [ul]\<rparr>))"
    using C4_closing_tag [THEN conjunct1, rule_format, of s "[ul]" li "lit ''li''"]
    by (simp add: s_def li_def)
  have b: "parseStep (ClosingTagToken (lit ''ul'')) s
             = ([Close (lit ''li'') False, Close (lit ''ul'') False], Inr (s\<lparr>stack := []\<rparr>))"
    using h C4_closing_tag [THEN conjunct2, THEN conjunct1, rule_format,
        of s "[]" ul li "lit ''ul''"]
    by (simp add: s_def li_def ul_def)
  have c: "parseStep (ClosingTagToken (lit ''x'')) s = ([], Inr s)"
  proof (rule C4_closing_tag [THEN conjunct2, THEN conjunct2, THEN conjunct1, rule_format])
    have "stack s = [ul] @ [li] \<and> name li \<noteq> lit ''x''
            \<and> ([ul] = [] \<or> name (last [ul]) \<noteq> lit ''x'' \<or> \<not> isClosedByParent (name li))"
      using h by (simp add: s_def li_def ul_def)
    then show "stack s = [] \<or> (\<exists>rest current. stack s = rest @ [current]
            \<and> name current \<noteq> lit ''x''
            \<and> (rest = [] \<or> name (last rest) \<noteq> lit ''x'' \<or> \<not> isClosedByParent (name current)))"
      by blast
  qed
  show ?thesis
    unfolding Let_def ul_def [symmetric] li_def [symmetric] s_def [symmetric]
    using h a b c by simp
qed

section \<open>Universal properties of the tokenizer and the parser\<close>

text \<open>
  C1. The claim, that the events of \<open>parse\<close> are well nested for every input, fails on the
  code at the input \<open><constructor><p>\<close>: the generator yields the \<open>Open\<close> of
  \<open>constructor\<close>, then the lookup \<open>CLOSED_BY_SIBLINGS['constructor']\<close> finds the
  inherited function and the call of its missing \<open>has\<close> throws, so that no \<open>Close\<close>
  follows. (Whenever \<open>parse\<close> runs to its end the events are well nested:
  \<open>parse_wellNested_if_completed\<close>.)
\<close>

theorem C1_unclosed_after_throw:
  "parse (lit ''<constructor><p>'') = ([Open (lit ''constructor'') [] False], Some TypeError)
   \<and> \<not> wellNested [] (fst (parse (lit ''<constructor><p>'')))"
  by (simp add: ev)

text \<open>
  C2, as stated, is false: for \<open>a</x>b\<close> the parser drops the closing tag that separates
  the two text tokens and yields two text events in a row.
\<close>

theorem C2_counterexample:
  "fst (parse (lit ''a</x>b'')) = [Text (lit ''a''), Text (lit ''b'')]
   \<and> adjacentTextEvents (fst (parse (lit ''a</x>b'')))"
  by (simp add: ev)

text \<open>
  C2, amended. Text is coalesced by the tokenizer only: for every input the tokens of
  \<open>tokenize\<close> never hold two text tokens in a row. (The parser passes each text token on
  unchanged and does not coalesce.)
\<close>

theorem C2_tokenize_coalesces: "\<not> adjacentText (fst (tokenize html))"
proof -
  have "fst (tokenize html) = coalesce None (fst (priv_tokenize html))"
    by (simp add: tokenize_def split: prod.splits)
  then show ?thesis by (simp add: coalesce_no_adjacentText)
qed

text \<open>
  C6, as stated, is false: for the empty input \<open>tokenize\<close> yields the two tokens \<open>start\<close>
  and \<open>done\<close>, not an empty stream.
\<close>

theorem C6_counterexample:
  "tokenize [] = ([StartToken, DoneToken], None) \<and> fst (tokenize []) \<noteq> []"
  by (simp add: ev)

text \<open>
  C6, amended. \<open>tokenize\<close> never throws, whatever the input, and yields exactly \<open>start\<close>
  and \<open>done\<close> for the empty input; \<open>parse\<close> yields no event for the empty input, and it
  never throws on an input none of whose opening tags is named like a property of
  \<open>Object.prototype\<close>.
\<close>

theorem C6_total:
  "snd (tokenize html) = None
   \<and> tokenize [] = ([StartToken, DoneToken], None)
   \<and> parse [] = ([], None)
   \<and> ((\<forall>nm. OpeningTagToken nm \<in> set (fst (tokenize html)) \<longrightarrow> nm \<notin> set OBJECT_PROTOTYPE_KEYS)
        \<longrightarrow> snd (parse html) = None)"
proof (intro conjI impI)
  show "snd (tokenize html) = None" using tokenize_facts [of html] by blast
  show "tokenize [] = ([StartToken, DoneToken], None)" by (simp add: ev)
  show "parse [] = ([], None)" by (simp add: ev)
next
  assume a: "\<forall>nm. OpeningTagToken nm \<in> set (fst (tokenize html)) \<longrightarrow> nm \<notin> set OBJECT_PROTOTYPE_KEYS"
  obtain tkns thrown where t: "tokenize html = (tkns, thrown)" by (cases "tokenize html")
  from tokenize_facts [of html] have "snd (tokenize html) = None" by blast
  with t have th: "thrown = None" by simp
  from a t have "\<forall>nm. OpeningTagToken nm \<in> set tkns \<longrightarrow> nm \<notin> set OBJECT_PROTOTYPE_KEYS" by simp
  from parseLoop_no_throw [of "\<lparr>stack = [], pendingTag = None\<rparr>", OF _ _ this]
  obtain out s' where "parseLoop \<lparr>stack = [], pendingTag = None\<rparr> tkns = (out, Inr s')" by auto
  with t th show "snd (parse html) = None" by (simp add: parse_def)
qed

theorem C6_total_witness:
  "fst (tokenize (lit ''<p>x'')) =
      [StartToken, OpeningTagToken (lit ''p''), OpeningTagEndToken (lit ''p'') (lit ''>''),
       TextToken (lit ''x''), DoneToken]
   \<and> lit ''p'' \<notin> set OBJECT_PROTOTYPE_KEYS
   \<and> snd (tokenize (lit ''<p>x'')) = None \<and> snd (parse (lit ''<p>x'')) = None"
proof -
  have t: "fst (tokenize (lit ''<p>x'')) =
      [StartToken, OpeningTagToken (lit ''p''), OpeningTagEndToken (lit ''p'') (lit ''>''),
       TextToken (lit ''x''), DoneToken]"
    by (simp add: ev)
  have k: "lit ''p'' \<notin> set OBJECT_PROTOTYPE_KEYS" by (simp add: ev)
  have h: "\<forall>nm. OpeningTagToken nm \<in> set (fst (tokenize (lit ''<p>x'')))
          \<longrightarrow> nm \<notin> set OBJECT_PROTOTYPE_KEYS"
    unfolding t using k by simp
  from h C6_total [of "lit ''<p>x''"] t k show ?thesis by blast
qed

text \<open>
  C9, as stated, is false: a pass of the loop can leave the position where it was. For
  \<open><a!\<close> the first pass reads the opening tag; the second, in state \<open>InTag\<close> at position
  2, finds neither an attribute nor a tag end and only switches to \<open>InText\<close>.
\<close>

theorem C9_counterexample:
  "tokStep (lit ''<a!'') initial
     = Inr ([OpeningTagToken (lit ''a'')],
            Some \<lparr>pos = 2, state = InTag, currentTag = lit ''a''\<rparr>)
   \<and> tokStep (lit ''<a!'') \<lparr>pos = 2, state = InTag, currentTag = lit ''a''\<rparr>
     = Inr ([], Some \<lparr>pos = 2, state = InText, currentTag = lit ''a''\<rparr>)"
  by (simp add: ev)

text \<open>
  C9, amended. No pass of the tokenizer loop moves the position back. A pass moves it
  forward by at least one character, except the pass that abandons a tag: that one
  yields nothing, keeps the position and goes from \<open>InTag\<close> to \<open>InText\<close>, so the pass
  after it moves forward. The loop makes at most \<open>2 * n\<close> passes on an input of length
  \<open>n\<close>, \<open>tokenize\<close> yields at most \<open>4 * n + 2\<close> tokens, for each of which the parser loop
  runs once, and \<open>parse\<close> yields at most \<open>8 * n + 4\<close> events.
\<close>

theorem C9_linear_progress:
  "(\<forall>s out s'. tokStep html s = Inr (out, Some s') \<longrightarrow>
      pos s < pos s'
      \<or> (pos s' = pos s \<and> state s = InTag \<and> state s' = InText \<and> out = []))
   \<and> length (fst (run html initial)) \<le> 2 * length html
   \<and> length (fst (tokenize html)) \<le> 4 * length html + 2
   \<and> length (fst (parse html)) \<le> 8 * length html + 4"
proof (intro conjI allI impI)
  fix s out s'
  assume "tokStep html s = Inr (out, Some s')"
  with tokStep_total [of html s]
  show "pos s < pos s' \<or> (pos s' = pos s \<and> state s = InTag \<and> state s' = InText \<and> out = [])"
    by auto
next
  show "length (fst (run html initial)) \<le> 2 * length html" by (rule run_initial_iterations)
next
  show "length (fst (tokenize html)) \<le> 4 * length html + 2"
    using tokenize_facts [of html] by blast
next
  obtain tkns thrown where t: "tokenize html = (tkns, thrown)" by (cases "tokenize html")
  from tokenize_facts [of html] have "length (fst (tokenize html)) \<le> 4 * length html + 2"
    by blast
  with t have l: "length tkns \<le> 4 * length html + 2" by simp
  obtain out r where p: "parseLoop \<lparr>stack = [], pendingTag = None\<rparr> tkns = (out, r)"
    by (cases "parseLoop \<lparr>stack = [], pendingTag = None\<rparr> tkns")
  from parseLoop_length [OF p]
  have b: "length out + (case r of Inl e \<Rightarrow> 0 | Inr s' \<Rightarrow> length (stack s')) \<le> 2 * length tkns"
    by simp
  have "length (fst (parse html)) \<le> 2 * length tkns"
    using t p b by (auto simp: parse_def drain_def split: sum.splits option.splits)
  with l show "length (fst (parse html)) \<le> 8 * length html + 4" by simp
qed

theorem C9_linear_progress_witness:
  "tokStep (lit ''<a b>'') \<lparr>pos = 2, state = InTag, currentTag = lit ''a''\<rparr>
     = Inr ([AttributeToken (lit ''b'') []],
            Some \<lparr>pos = 4, state = InTag, currentTag = lit ''a''\<rparr>)
   \<and> (pos \<lparr>pos = 2, state = InTag, currentTag = lit ''a''\<rparr>
        < pos \<lparr>pos = 4, state = InTag, currentTag = lit ''a''\<rparr>
       \<or> [AttributeToken (lit ''b'') []] = [])"
proof -
  have e: "tokStep (lit ''<a b>'') \<lparr>pos = 2, state = InTag, currentTag = lit ''a''\<rparr>
     = Inr ([AttributeToken (lit ''b'') []],
            Some \<lparr>pos = 4, state = InTag, currentTag = lit ''a''\<rparr>)"
    by (simp add: ev)
  from C9_linear_progress [of "lit ''<a b>''", THEN conjunct1, rule_format, OF e] e
  show ?thesis by blast
qed

section \<open>Case of tag names and script mode\<close>

lemma getOpeningTag_capture:
  assumes "getOpeningTag str p = Some (len, nm)"
  shows "nm = take (len - 1) (drop (Suc p) str)"
proof -
  from assms obtain c s where d: "drop p str = c # s" and m: "matchName isTagChar s = Some nm"
    and l: "len = 1 + length nm"
    by (auto simp: getOpeningTag_def split: list.splits if_splits option.splits)
  from d have "s = drop (Suc p) str" by (metis drop_Suc list.sel(3) tl_drop)
  with matchName_prefix [OF m] l show ?thesis by simp
qed

lemma tables_lower_case:
  "list_all (\<lambda>t. \<not> hasUpperCase t) SELF_CLOSING_TAGS"
  "list_all (\<lambda>t. \<not> hasUpperCase t) CLOSED_BY_PARENTS"
  "list_all (\<lambda>(tag, others). \<not> hasUpperCase tag \<and> list_all (\<lambda>t. \<not> hasUpperCase t) others)
     CLOSED_BY_SIBLINGS"
  by (simp_all add: SELF_CLOSING_TAGS_def CLOSED_BY_PARENTS_def CLOSED_BY_SIBLINGS_def
        hasUpperCase_def lit_def)

lemma CLOSED_BY_SIBLINGS_distinct: "distinct (map fst CLOSED_BY_SIBLINGS)"
  by (simp add: CLOSED_BY_SIBLINGS_def lit_def)

lemma isClosedBy_iff:
  "isClosedBy tag other = Inr True
     \<longleftrightarrow> (\<exists>others. (tag, others) \<in> set CLOSED_BY_SIBLINGS \<and> other \<in> set others)"
proof -
  have "isClosedBy tag other = Inr True
     \<longleftrightarrow> (\<exists>others. map_of CLOSED_BY_SIBLINGS tag = Some others \<and> other \<in> set others)"
    by (auto simp: isClosedBy_def split: option.splits)
  then show ?thesis
    by (simp add: map_of_eq_Some_iff [OF CLOSED_BY_SIBLINGS_distinct])
qed

lemma isClosedBy_lower_case:
  assumes "isClosedBy tag other = Inr True"
  shows "\<not> hasUpperCase tag \<and> \<not> hasUpperCase other"
proof -
  from assms isClosedBy_iff obtain others
    where m: "(tag, others) \<in> set CLOSED_BY_SIBLINGS" and o: "other \<in> set others" by blast
  from tables_lower_case(3) m
  have "\<not> hasUpperCase tag \<and> list_all (\<lambda>t. \<not> hasUpperCase t) others"
    by (auto simp: list_all_iff)
  with o show ?thesis by (auto simp: list_all_iff)
qed

text \<open>
  C8. An opening tag is captured as the very characters of the input, so in their
  original case. No name in the three tables has an upper-case letter, and the tables
  are looked up with the names as they are: \<open>isClosedBy\<close> holds exactly for the pairs of
  the table, so never for a name with an upper-case letter in it. Hence a top frame or a
  pending tag with such a name never leads to a sibling close. For \<open><P><DIV>\<close> the lookup
  fails, \<open>P\<close> is not closed when \<open>DIV\<close> opens, and the drain at the end closes \<open>DIV\<close> and
  then \<open>P\<close>.
\<close>

theorem C8_case_sensitive_lookup:
  "(\<forall>str p len nm. getOpeningTag str p = Some (len, nm) \<longrightarrow>
      nm = take (len - 1) (drop (Suc p) str))
   \<and> list_all (\<lambda>t. \<not> hasUpperCase t) SELF_CLOSING_TAGS
   \<and> list_all (\<lambda>t. \<not> hasUpperCase t) CLOSED_BY_PARENTS
   \<and> list_all (\<lambda>(tag, others). \<not> hasUpperCase tag \<and> list_all (\<lambda>t. \<not> hasUpperCase t) others)
        CLOSED_BY_SIBLINGS
   \<and> (\<forall>tag other. isClosedBy tag other = Inr True
         \<longleftrightarrow> (\<exists>others. (tag, others) \<in> set CLOSED_BY_SIBLINGS \<and> other \<in> set others))
   \<and> (\<forall>tag other. isClosedBy tag other = Inr True \<longrightarrow>
         \<not> hasUpperCase tag \<and> \<not> hasUpperCase other)
   \<and> (\<forall>tag. isSelfClosing tag \<or> isClosedByParent tag \<longrightarrow> \<not> hasUpperCase tag)
   \<and> (\<forall>s rest T pending nm tok.
         stack s = rest @ [T] \<and> pendingTag s = Some pending
         \<and> (hasUpperCase (name T) \<or> hasUpperCase (name pending))
         \<and> name T \<notin> set OBJECT_PROTOTYPE_KEYS \<longrightarrow>
         parseStep (OpeningTagEndToken nm tok) s =
           (Open (name pending) (attributes pending) (tok = lit ''/>'' \<or> isSelfClosing nm)
              # (if tok = lit ''/>'' \<or> isSelfClosing nm then [Close (name pending) True] else []),
            Inr (s\<lparr>stack := (if tok = lit ''/>'' \<or> isSelfClosing nm then rest @ [T]
                               else rest @ [T, pending])\<rparr>)))
   \<and> isClosedBy (lit ''p'') (lit ''div'') = Inr True
   \<and> isClosedBy (lit ''P'') (lit ''div'') = Inr False
   \<and> isClosedBy (lit ''p'') (lit ''DIV'') = Inr False
   \<and> isClosedBy (lit ''P'') (lit ''DIV'') = Inr False
   \<and> parse (lit ''<P><DIV>'') =
       ([Open (lit ''P'') [] False, Open (lit ''DIV'') [] False,
         Close (lit ''DIV'') False, Close (lit ''P'') False], None)
   \<and> parse (lit ''<P><div>'') =
       ([Open (lit ''P'') [] False, Open (lit ''div'') [] False,
         Close (lit ''div'') False, Close (lit ''P'') False], None)
   \<and> parse (lit ''<p><DIV>'') =
       ([Open (lit ''p'') [] False, Open (lit ''DIV'') [] False,
         Close (lit ''DIV'') False, Close (lit ''p'') False], None)"
proof (intro conjI allI impI)
  fix str p len nm
  assume "getOpeningTag str p = Some (len, nm)"
  then show "nm = take (len - 1) (drop (Suc p) str)" by (rule getOpeningTag_capture)
next
  show "list_all (\<lambda>t. \<not> hasUpperCase t) SELF_CLOSING_TAGS" by (rule tables_lower_case)
  show "list_all (\<lambda>t. \<not> hasUpperCase t) CLOSED_BY_PARENTS" by (rule tables_lower_case)
  show "list_all (\<lambda>(tag, others). \<not> hasUpperCase tag \<and> list_all (\<lambda>t. \<not> hasUpperCase t) others)
        CLOSED_BY_SIBLINGS" by (rule tables_lower_case)
next
  fix tag other
  show "isClosedBy tag other = Inr True
         \<longleftrightarrow> (\<exists>others. (tag, others) \<in> set CLOSED_BY_SIBLINGS \<and> other \<in> set others)"
    by (rule isClosedBy_iff)
next
  fix tag other
  assume a: "isClosedBy tag other = Inr True"
  from isClosedBy_lower_case [OF a]
  show "\<not> hasUpperCase tag" and "\<not> hasUpperCase other" by blast+
next
  fix tag
  assume "isSelfClosing tag \<or> isClosedByParent tag"
  with tables_lower_case(1,2) show "\<not> hasUpperCase tag"
    by (auto simp: isSelfClosing_def isClosedByParent_def list_all_iff)
next
  fix s :: pstate and rest T pending nm tok
  assume a: "stack s = rest @ [T] \<and> pendingTag s = Some pending
         \<and> (hasUpperCase (name T) \<or> hasUpperCase (name pending))
         \<and> name T \<notin> set OBJECT_PROTOTYPE_KEYS"
  then obtain b where b: "isClosedBy (name T) (name pending) = Inr b"
    using isClosedBy_no_throw by blast
  from a isClosedBy_lower_case [of "name T" "name pending"] b have "\<not> b"
    by (cases b) auto
  with a b show "parseStep (OpeningTagEndToken nm tok) s =
           (Open (name pending) (attributes pending) (tok = lit ''/>'' \<or> isSelfClosing nm)
              # (if tok = lit ''/>'' \<or> isSelfClosing nm then [Close (name pending) True] else []),
            Inr (s\<lparr>stack := (if tok = lit ''/>'' \<or> isSelfClosing nm then rest @ [T]
                               else rest @ [T, pending])\<rparr>))"
    by (simp add: stack_simps)
qed (simp_all add: ev)

theorem C8_case_sensitive_lookup_witness:
  "getOpeningTag (lit ''<P><DIV>'') 0 = Some (2, lit ''P'')
   \<and> lit ''P'' = take (2 - 1) (drop (Suc 0) (lit ''<P><DIV>''))
   \<and> isClosedBy (lit ''li'') (lit ''li'') = Inr True
   \<and> \<not> hasUpperCase (lit ''li'')
   \<and> hasUpperCase (lit ''P'')
   \<and> lit ''P'' \<notin> set OBJECT_PROTOTYPE_KEYS
   \<and> parseStep (OpeningTagEndToken (lit ''div'') (lit ''>''))
        \<lparr>stack = [\<lparr>name = lit ''P'', attributes = []\<rparr>],
         pendingTag = Some \<lparr>name = lit ''div'', attributes = []\<rparr>\<rparr>
       = ([Open (lit ''div'') [] False],
          Inr \<lparr>stack = [\<lparr>name = lit ''P'', attributes = []\<rparr>, \<lparr>name = lit ''div'', attributes = []\<rparr>],
               pendingTag = Some \<lparr>name = lit ''div'', attributes = []\<rparr>\<rparr>)"
proof -
  have e: "getOpeningTag (lit ''<P><DIV>'') 0 = Some (2, lit ''P'')" by (simp add: ev)
  from C8_case_sensitive_lookup [THEN conjunct1, rule_format, OF e]
  have w1: "lit ''P'' = take (2 - 1) (drop (Suc 0) (lit ''<P><DIV>''))" .
  have c: "isClosedBy (lit ''li'') (lit ''li'') = Inr True" by (simp add: ev)
  from C8_case_sensitive_lookup [THEN conjunct2, THEN conjunct2, THEN conjunct2, THEN conjunct2,
      THEN conjunct2, THEN conjunct1, rule_format, OF c]
  have w2: "\<not> hasUpperCase (lit ''li'')" by blast
  let ?T = "\<lparr>name = lit ''P'', attributes = []\<rparr>"
  let ?p = "\<lparr>name = lit ''div'', attributes = []\<rparr>"
  let ?s = "\<lparr>stack = [?T], pendingTag = Some ?p\<rparr>"
  have u: "hasUpperCase (lit ''P'')" "lit ''P'' \<notin> set OBJECT_PROTOTYPE_KEYS"
    "\<not> isSelfClosing (lit ''div'')" "lit ''>'' \<noteq> lit ''/>''"
    by (simp_all add: ev hasUpperCase_def)
  then have h: "stack ?s = [] @ [?T] \<and> pendingTag ?s = Some ?p
         \<and> (hasUpperCase (name ?T) \<or> hasUpperCase (name ?p))
         \<and> name ?T \<notin> set OBJECT_PROTOTYPE_KEYS"
    by simp
  from C8_case_sensitive_lookup [THEN conjunct2, THEN conjunct2, THEN conjunct2, THEN conjunct2,
      THEN conjunct2, THEN conjunct2, THEN conjunct2, THEN conjunct1, rule_format, OF h,
      of "lit ''div''" "lit ''>''"] u
  have w3: "parseStep (OpeningTagEndToken (lit ''div'') (lit ''>'')) ?s
       = ([Open (lit ''div'') [] False], Inr \<lparr>stack = [?T, ?p], pendingTag = Some ?p\<rparr>)"
    by simp
  from e w1 c w2 u w3 show ?thesis by blast
qed

text \<open>
  C10. The tokenizer enters \<open>InScript\<close> only from \<open>InTag\<close>, at a tag end, and only when
  the captured tag name is exactly \<open>script\<close>. After the opener \<open><SCRIPT>\<close> it is in
  \<open>InText\<close>: what follows is tokenized as ordinary HTML, and a later \<open></script>\<close> is an
  ordinary closing tag, which does not match the open element \<open>SCRIPT\<close>.
\<close>

theorem C10_script_mode_is_lower_case:
  "(\<forall>html s out s'. tokStep html s = Inr (out, Some s') \<and> state s' = InScript \<longrightarrow>
      state s = InTag \<and> currentTag s = lit ''script'')
   \<and> tokStep (lit ''<SCRIPT>x</SCRIPT>'') \<lparr>pos = 7, state = InTag, currentTag = lit ''SCRIPT''\<rparr>
      = Inr ([OpeningTagEndToken (lit ''SCRIPT'') (lit ''>'')],
             Some \<lparr>pos = 8, state = InText, currentTag = lit ''SCRIPT''\<rparr>)
   \<and> tokenize (lit ''<SCRIPT>x</SCRIPT>'')
      = ([StartToken, OpeningTagToken (lit ''SCRIPT''),
          OpeningTagEndToken (lit ''SCRIPT'') (lit ''>''), TextToken (lit ''x''),
          ClosingTagToken (lit ''SCRIPT''), DoneToken], None)
   \<and> parse (lit ''<SCRIPT><b>x</script>'')
      = ([Open (lit ''SCRIPT'') [] False, Open (lit ''b'') [] False, Text (lit ''x''),
          Close (lit ''b'') False, Close (lit ''SCRIPT'') False], None)
   \<and> parse (lit ''<script><b>x</script>'')
      = ([Open (lit ''script'') [] False, Text (lit ''<b>x''), Close (lit ''script'') False],
         None)"
proof (intro conjI allI impI)
  fix html s out s'
  assume a: "tokStep html s = Inr (out, Some s') \<and> state s' = InScript"
  with tokStep_total [of html s]
  show "state s = InTag" and "currentTag s = lit ''script''" by auto
qed (simp_all add: ev)

theorem C10_script_mode_is_lower_case_witness:
  "tokStep (lit ''<script>x'') \<lparr>pos = 7, state = InTag, currentTag = lit ''script''\<rparr>
      = Inr ([OpeningTagEndToken (lit ''script'') (lit ''>'')],
             Some \<lparr>pos = 8, state = InScript, currentTag = lit ''script''\<rparr>)
   \<and> state \<lparr>pos = 8, state = InScript, currentTag = lit ''script''\<rparr> = InScript
   \<and> state \<lparr>pos = 7, state = InTag, currentTag = lit ''script''\<rparr> = InTag
   \<and> currentTag \<lparr>pos = 7, state = InTag, currentTag = lit ''script''\<rparr> = lit ''script''"
proof -
  have e: "tokStep (lit ''<script>x'') \<lparr>pos = 7, state = InTag, currentTag = lit ''script''\<rparr>
      = Inr ([OpeningTagEndToken (lit ''script'') (lit ''>'')],
             Some \<lparr>pos = 8, state = InScript, currentTag = lit ''script''\<rparr>)"
    by (simp add: ev)
  have i: "state \<lparr>pos = 8, state = InScript, currentTag = lit ''script''\<rparr> = InScript" by simp
  from C10_script_mode_is_lower_case [THEN conjunct1, rule_format, OF conjI [OF e i]] e i
  show ?thesis by blast
qed

lemma indexOfSub_prefix: "prefix needle s \<Longrightarrow> indexOfSub needle s = Some 0"
  by (cases s) auto

lemma indexOfSub_first:
  "s = body @ needle @ rest \<Longrightarrow> \<forall>j < length body. \<not> prefix needle (drop j s)
   \<Longrightarrow> indexOfSub needle s = Some (length body)"
proof (induction body arbitrary: s)
  case Nil
  then show ?case by (simp add: indexOfSub_prefix)
next
  case (Cons b body)
  from Cons.prems(1) have s: "s = b # (body @ needle @ rest)" by simp
  from Cons.prems(2) have "\<not> prefix needle (drop 0 s)" by blast
  with s have n0: "\<not> prefix needle (b # (body @ needle @ rest))" by simp
  have "\<forall>j < length body. \<not> prefix needle (drop j (body @ needle @ rest))"
  proof (intro allI impI)
    fix j assume "j < length body"
    then have "Suc j < length (b # body)" by simp
    with Cons.prems(2) have "\<not> prefix needle (drop (Suc j) s)" by blast
    with s show "\<not> prefix needle (drop j (body @ needle @ rest))" by simp
  qed
  from Cons.IH [OF refl this] have "indexOfSub needle (body @ needle @ rest) = Some (length body)" .
  with s n0 show ?case by simp
qed

lemma indexOfSub_none:
  "\<forall>j. \<not> prefix needle (drop j s) \<Longrightarrow> indexOfSub needle s = None"
proof (induction s)
  case Nil
  from Nil have "\<not> prefix needle (drop 0 [])" by blast
  then show ?case by simp
next
  case (Cons x xs)
  from Cons.prems have n0: "\<not> prefix needle (drop 0 (x # xs))" by blast
  have "\<forall>j. \<not> prefix needle (drop j xs)"
  proof
    fix j
    from Cons.prems have "\<not> prefix needle (drop (Suc j) (x # xs))" by blast
    then show "\<not> prefix needle (drop j xs)" by simp
  qed
  from Cons.IH [OF this] n0 show ?case by simp
qed

lemma tokStep_InScript_found:
  assumes "state s = InScript"
    and "drop (pos s) html = body @ lit ''</script>'' @ rest"
    and "\<forall>j < length body. \<not> prefix (lit ''</script>'') (drop (pos s + j) html)"
  shows "tokStep html s = Inr ([TextToken body, ClosingTagToken (lit ''script'')],
                            Some (s\<lparr>pos := pos s + (length body + 9), state := InText\<rparr>))"
proof -
  have d: "\<And>j. drop j (drop (pos s) html) = drop (pos s + j) html"
    by (simp add: add.commute)
  have "\<forall>j < length body. \<not> prefix (lit ''</script>'') (drop j (drop (pos s) html))"
    unfolding d using assms(3) by blast
  with assms(2) have "indexOfSub (lit ''</script>'') (drop (pos s) html) = Some (length body)"
    using indexOfSub_first by blast
  with assms(2) have "getScript html (pos s) = Some (length body + 9, body)"
    by (simp add: getScript_def)
  with assms(1) show ?thesis by (simp add: tokStep_def)
qed

lemma run_InScript_found:
  assumes "state s = InScript"
    and "drop (pos s) html = body @ lit ''</script>'' @ rest"
    and "\<forall>j < length body. \<not> prefix (lit ''</script>'') (drop (pos s + j) html)"
  shows "run html s =
      (case run html (s\<lparr>pos := pos s + (length body + 9), state := InText\<rparr>) of
         (outs, r) \<Rightarrow> ([TextToken body, ClosingTagToken (lit ''script'')] # outs, r))"
proof -
  have "drop (pos s) html \<noteq> []" unfolding assms(2) by (simp add: lit_def)
  then have lt: "pos s < length html" by simp
  from tokStep_InScript_found [OF assms] lt show ?thesis
    by (subst run.simps) simp
qed

lemma run_InScript_none:
  assumes "state s = InScript"
    and "\<forall>j. \<not> prefix (lit ''</script>'') (drop (pos s + j) html)"
  shows "run html s = (if pos s < length html then ([[TextToken (drop (pos s) html)]], None)
                       else ([], None))"
proof -
  have d: "\<And>j. drop j (drop (pos s) html) = drop (pos s + j) html"
    by (simp add: add.commute)
  have "\<forall>j. \<not> prefix (lit ''</script>'') (drop j (drop (pos s) html))"
    unfolding d using assms(2) by blast
  then have "indexOfSub (lit ''</script>'') (drop (pos s) html) = None"
    by (rule indexOfSub_none)
  then have "getScript html (pos s) = None" by (simp add: getScript_def)
  with assms(1) have "tokStep html s = Inr ([TextToken (drop (pos s) html)], None)"
    by (simp add: tokStep_def substringFrom_def)
  then show ?thesis by (subst run.simps) simp
qed

lemma coalesce_script_body:
  assumes "cur = None \<or> cur = Some []"
  shows "coalesce cur (TextToken body # ClosingTagToken nm # tkns) =
      (if body = [] then ClosingTagToken nm # coalesce (Some []) tkns
       else TextToken body # ClosingTagToken nm # coalesce None tkns)"
  using assms by auto

lemma run_script_opener:
  "run (lit ''<script>'' @ tail) initial =
     (case run (lit ''<script>'' @ tail) \<lparr>pos = 8, state = InScript, currentTag = lit ''script''\<rparr> of
        (outs, r) \<Rightarrow>
          ([OpeningTagToken (lit ''script'')]
             # [OpeningTagEndToken (lit ''script'') (lit ''>'')] # outs, r))"
proof -
  let ?h = "lit ''<script>'' @ tail"
  let ?t = "\<lparr>pos = 7, state = InTag, currentTag = lit ''script''\<rparr>"
  let ?s = "\<lparr>pos = 8, state = InScript, currentTag = lit ''script''\<rparr>"
  have s1: "tokStep ?h initial = Inr ([OpeningTagToken (lit ''script'')], Some ?t)"
    by (simp add: initial_def tokStep_def charAt_def getOpeningTag_def matchName_def
          isTagChar_def lit_def Let_def)
  have s2: "tokStep ?h ?t = Inr ([OpeningTagEndToken (lit ''script'') (lit ''>'')], Some ?s)"
    by (simp add: tokStep_def getAttributeName_def getTagEnd_def isSpace_def lit_def Let_def)
  have l: "pos initial < length ?h" "pos ?t < length ?h"
    by (simp_all add: initial_def lit_def)
  have r2: "run ?h ?t = (case run ?h ?s of
        (outs, r) \<Rightarrow> ([OpeningTagEndToken (lit ''script'') (lit ''>'')] # outs, r))"
    using s2 l(2) by (subst run.simps) simp
  have "run ?h initial = (case run ?h ?t of
        (outs, r) \<Rightarrow> ([OpeningTagToken (lit ''script'')] # outs, r))"
    using s1 l(1) by (subst run.simps) simp
  then show ?thesis unfolding r2 by (simp split: prod.splits)
qed

lemma tokenize_script_found:
  assumes "\<forall>j < length body. \<not> prefix (lit ''</script>'') (drop j (body @ lit ''</script>'' @ rest))"
  shows "tokenize (lit ''<script>'' @ body @ lit ''</script>'' @ rest) =
     ([StartToken, OpeningTagToken (lit ''script''),
       OpeningTagEndToken (lit ''script'') (lit ''>'')]
      @ (if body = [] then [] else [TextToken body])
      @ ClosingTagToken (lit ''script'')
        # coalesce (if body = [] then Some [] else None)
            (concat (fst (run (lit ''<script>'' @ body @ lit ''</script>'' @ rest)
                        \<lparr>pos = 8 + (length body + 9), state = InText,
                         currentTag = lit ''script''\<rparr>))
             @ [DoneToken]),
      None)"
proof -
  let ?tail = "body @ lit ''</script>'' @ rest"
  let ?h = "lit ''<script>'' @ ?tail"
  let ?s = "\<lparr>pos = 8, state = InScript, currentTag = lit ''script''\<rparr>"
  let ?s' = "\<lparr>pos = 8 + (length body + 9), state = InText, currentTag = lit ''script''\<rparr>"
  have d8: "drop 8 ?h = ?tail" by (simp add: lit_def)
  have dj: "\<And>j. drop (8 + j) ?h = drop j ?tail"
  proof -
    fix j
    have "drop (8 + j) ?h = drop j (drop 8 ?h)" by (simp only: drop_drop add.commute)
    then show "drop (8 + j) ?h = drop j ?tail" unfolding d8 .
  qed
  have a1: "state ?s = InScript" by simp
  have p8: "pos ?s = 8" by simp
  have a2: "drop (pos ?s) ?h = body @ lit ''</script>'' @ rest" unfolding p8 by (rule d8)
  have a3: "\<forall>j < length body. \<not> prefix (lit ''</script>'') (drop (pos ?s + j) ?h)"
    unfolding p8 dj by (rule assms)
  from run_InScript_found [OF a1 a2 a3]
  have r1: "run ?h ?s = (case run ?h ?s' of
         (outs, r) \<Rightarrow> ([TextToken body, ClosingTagToken (lit ''script'')] # outs, r))"
    by simp
  obtain outs r where rs: "run ?h ?s' = (outs, r)" by (cases "run ?h ?s'")
  from run_facts [of ?h ?s'] rs have r: "r = None" by simp
  from run_script_opener [of ?tail] r1 rs r
  have "run ?h initial =
      ([OpeningTagToken (lit ''script'')] # [OpeningTagEndToken (lit ''script'') (lit ''>'')]
         # [TextToken body, ClosingTagToken (lit ''script'')] # outs, None)"
    by simp
  then have "tokenize ?h =
      (coalesce None (StartToken # OpeningTagToken (lit ''script'')
         # OpeningTagEndToken (lit ''script'') (lit ''>'') # TextToken body
         # ClosingTagToken (lit ''script'') # concat outs @ [DoneToken]), None)"
    by (simp add: tokenize_def priv_tokenize_def)
  with rs show ?thesis by (cases "body = []") simp_all
qed

lemma run_script_none:
  assumes "\<forall>j. \<not> prefix (lit ''</script>'') (drop j tail)"
  shows "run (lit ''<script>'' @ tail) initial =
      ([OpeningTagToken (lit ''script'')] # [OpeningTagEndToken (lit ''script'') (lit ''>'')]
         # (if tail = [] then [] else [[TextToken tail]]), None)"
proof -
  let ?h = "lit ''<script>'' @ tail"
  let ?s = "\<lparr>pos = 8, state = InScript, currentTag = lit ''script''\<rparr>"
  have d8: "drop 8 ?h = tail" by (simp add: lit_def)
  have dj: "\<And>j. drop (8 + j) ?h = drop j tail"
  proof -
    fix j
    have "drop (8 + j) ?h = drop j (drop 8 ?h)" by (simp only: drop_drop add.commute)
    then show "drop (8 + j) ?h = drop j tail" unfolding d8 .
  qed
  have a1: "state ?s = InScript" by simp
  have p8: "pos ?s = 8" by simp
  have a2: "\<forall>j. \<not> prefix (lit ''</script>'') (drop (pos ?s + j) ?h)"
    unfolding p8 dj by (rule assms)
  have l: "pos ?s < length ?h \<longleftrightarrow> tail \<noteq> []" by (simp add: lit_def)
  from run_InScript_none [OF a1 a2] l d8
  have "run ?h ?s = (if tail = [] then ([], None) else ([[TextToken tail]], None))"
    by simp
  with run_script_opener [of tail] show ?thesis by simp
qed

lemma tokenize_script_none:
  assumes "\<forall>j. \<not> prefix (lit ''</script>'') (drop j tail)"
  shows "tokenize (lit ''<script>'' @ tail) =
     ([StartToken, OpeningTagToken (lit ''script''),
       OpeningTagEndToken (lit ''script'') (lit ''>'')]
      @ (if tail = [] then [] else [TextToken tail]) @ [DoneToken], None)"
  using run_script_none [OF assms]
  by (simp add: tokenize_def priv_tokenize_def)

lemma parse_script_none:
  assumes "\<forall>j. \<not> prefix (lit ''</script>'') (drop j tail)"
  shows "parse (lit ''<script>'' @ tail) =
     ([Open (lit ''script'') [] False] @ (if tail = [] then [] else [Text tail])
      @ [Close (lit ''script'') False], None)"
proof -
  have sc: "\<not> isSelfClosing (lit ''script'')" "lit ''>'' \<noteq> lit ''/>''"
    by (simp_all add: isSelfClosing_def SELF_CLOSING_TAGS_def lit_def)
  from tokenize_script_none [OF assms] sc show ?thesis
    by (simp add: parse_def stack_simps drain_def peek_def Let_def)
qed

text \<open>
  C5, as stated, is false: raw text that is empty is not emitted as a text token. For
  \<open><script></script>\<close> the tokens of \<open>tokenize\<close> hold no text token in front of the
  closing tag, and for \<open><script>\<close>, where the input ends with the tag, no text is
  emitted for the empty remainder.
\<close>

theorem C5_counterexample:
  "tokenize (lit ''<script></script>'')
     = ([StartToken, OpeningTagToken (lit ''script''),
         OpeningTagEndToken (lit ''script'') (lit ''>''),
         ClosingTagToken (lit ''script''), DoneToken], None)
   \<and> parse (lit ''<script></script>'')
     = ([Open (lit ''script'') [] False, Close (lit ''script'') False], None)
   \<and> run (lit ''<script>'') \<lparr>pos = 8, state = InScript, currentTag = lit ''script''\<rparr>
     = ([], None)
   \<and> tokenize (lit ''<script>'')
     = ([StartToken, OpeningTagToken (lit ''script''),
         OpeningTagEndToken (lit ''script'') (lit ''>''), DoneToken], None)
   \<and> parse (lit ''<script>'')
     = ([Open (lit ''script'') [] False, Close (lit ''script'') False], None)"
  by (simp add: ev)

text \<open>
  C5, amended. When the tag end of an opening tag named \<open>script\<close> is read, the tokenizer
  goes to \<open>InScript\<close>. From there, with \<open>body\<close> the text in front of the first
  \<open></script>\<close> (these very characters, in lower case), the loop of \<open>_tokenize\<close> yields
  the text token \<open>body\<close> and the closing tag \<open>script\<close> and goes on in \<open>InText\<close> behind
  that \<open></script>\<close>; when no \<open></script>\<close> follows, it yields the rest of the input as
  one text token and ends, and it yields nothing when there is no rest. The wrapper
  \<open>tokenize\<close> passes the text token on when it is not empty and drops it when it is
  empty. So for an input \<open><script>\<close>, \<open>body\<close>, \<open></script>\<close>, \<open>rest\<close> the tokens are the
  opening tag, its end, the text \<open>body\<close> unless it is empty, the closing tag \<open>script\<close>
  and the tokens of \<open>rest\<close>; and for \<open><script>\<close> followed by a \<open>tail\<close> without
  \<open></script>\<close> the events of \<open>parse\<close> are open script, the text \<open>tail\<close> unless it is
  empty, close script. For \<open><script>alert("</script>")</script>\<close> the events are open
  script, text \<open>alert("\<close>, close script, text \<open>")\<close>.
\<close>

theorem C5_script_raw_text:
  "(\<forall>html s len tk.
      state s = InTag \<and> currentTag s = lit ''script'' \<and> getAttributeName html (pos s) = None
      \<and> getTagEnd html (pos s) = Some (len, tk) \<longrightarrow>
      tokStep html s = Inr ([OpeningTagEndToken (lit ''script'') tk],
                            Some (s\<lparr>pos := pos s + len, state := InScript\<rparr>)))
   \<and> (\<forall>html s body rest.
      state s = InScript \<and> drop (pos s) html = body @ lit ''</script>'' @ rest
      \<and> (\<forall>j < length body. \<not> prefix (lit ''</script>'') (drop (pos s + j) html)) \<longrightarrow>
      tokStep html s = Inr ([TextToken body, ClosingTagToken (lit ''script'')],
                            Some (s\<lparr>pos := pos s + (length body + 9), state := InText\<rparr>))
      \<and> run html s =
          (case run html (s\<lparr>pos := pos s + (length body + 9), state := InText\<rparr>) of
             (outs, r) \<Rightarrow> ([TextToken body, ClosingTagToken (lit ''script'')] # outs, r)))
   \<and> (\<forall>html s.
      state s = InScript \<and> (\<forall>j. \<not> prefix (lit ''</script>'') (drop (pos s + j) html)) \<longrightarrow>
      run html s = (if pos s < length html then ([[TextToken (drop (pos s) html)]], None)
                    else ([], None)))
   \<and> (\<forall>cur body nm tkns.
      cur = None \<or> cur = Some [] \<longrightarrow>
      coalesce cur (TextToken body # ClosingTagToken nm # tkns) =
        (if body = [] then ClosingTagToken nm # coalesce (Some []) tkns
         else TextToken body # ClosingTagToken nm # coalesce None tkns))
   \<and> (\<forall>body rest.
      (\<forall>j < length body. \<not> prefix (lit ''</script>'') (drop j (body @ lit ''</script>'' @ rest)))
      \<longrightarrow>
      tokenize (lit ''<script>'' @ body @ lit ''</script>'' @ rest) =
        ([StartToken, OpeningTagToken (lit ''script''),
          OpeningTagEndToken (lit ''script'') (lit ''>'')]
         @ (if body = [] then [] else [TextToken body])
         @ ClosingTagToken (lit ''script'')
           # coalesce (if body = [] then Some [] else None)
               (concat (fst (run (lit ''<script>'' @ body @ lit ''</script>'' @ rest)
                           \<lparr>pos = 8 + (length body + 9), state = InText,
                            currentTag = lit ''script''\<rparr>))
                @ [DoneToken]),
         None))
   \<and> (\<forall>tail.
      (\<forall>j. \<not> prefix (lit ''</script>'') (drop j tail)) \<longrightarrow>
      tokenize (lit ''<script>'' @ tail) =
        ([StartToken, OpeningTagToken (lit ''script''),
          OpeningTagEndToken (lit ''script'') (lit ''>'')]
         @ (if tail = [] then [] else [TextToken tail]) @ [DoneToken], None)
      \<and> parse (lit ''<script>'' @ tail) =
        ([Open (lit ''script'') [] False] @ (if tail = [] then [] else [Text tail])
         @ [Close (lit ''script'') False], None))
   \<and> parse (lit ''<script>alert(\"</script>\")</script>'') =
       ([Open (lit ''script'') [] False, Text (lit ''alert(\"''),
         Close (lit ''script'') False, Text (lit ''\")'')], None)"
proof (intro conjI allI impI)
  fix html and s :: tstate and len tk
  assume "state s = InTag \<and> currentTag s = lit ''script'' \<and> getAttributeName html (pos s) = None
      \<and> getTagEnd html (pos s) = Some (len, tk)"
  then show "tokStep html s = Inr ([OpeningTagEndToken (lit ''script'') tk],
                            Some (s\<lparr>pos := pos s + len, state := InScript\<rparr>))"
    by (simp add: tokStep_def)
next
  fix html and s :: tstate and body rest
  assume a: "state s = InScript \<and> drop (pos s) html = body @ lit ''</script>'' @ rest
      \<and> (\<forall>j < length body. \<not> prefix (lit ''</script>'') (drop (pos s + j) html))"
  then show "tokStep html s = Inr ([TextToken body, ClosingTagToken (lit ''script'')],
                            Some (s\<lparr>pos := pos s + (length body + 9), state := InText\<rparr>))"
    using tokStep_InScript_found by blast
  from a show "run html s =
          (case run html (s\<lparr>pos := pos s + (length body + 9), state := InText\<rparr>) of
             (outs, r) \<Rightarrow> ([TextToken body, ClosingTagToken (lit ''script'')] # outs, r))"
    using run_InScript_found by blast
next
  fix html and s :: tstate
  assume "state s = InScript \<and> (\<forall>j. \<not> prefix (lit ''</script>'') (drop (pos s + j) html))"
  then show "run html s = (if pos s < length html then ([[TextToken (drop (pos s) html)]], None)
                    else ([], None))"
    using run_InScript_none by blast
next
  fix cur :: "jsstring option" and body nm tkns
  assume "cur = None \<or> cur = Some []"
  then show "coalesce cur (TextToken body # ClosingTagToken nm # tkns) =
        (if body = [] then ClosingTagToken nm # coalesce (Some []) tkns
         else TextToken body # ClosingTagToken nm # coalesce None tkns)"
    by (rule coalesce_script_body)
next
  fix body rest
  assume "\<forall>j < length body. \<not> prefix (lit ''</script>'') (drop j (body @ lit ''</script>'' @ rest))"
  then show "tokenize (lit ''<script>'' @ body @ lit ''</script>'' @ rest) =
        ([StartToken, OpeningTagToken (lit ''script''),
          OpeningTagEndToken (lit ''script'') (lit ''>'')]
         @ (if body = [] then [] else [TextToken body])
         @ ClosingTagToken (lit ''script'')
           # coalesce (if body = [] then Some [] else None)
               (concat (fst (run (lit ''<script>'' @ body @ lit ''</script>'' @ rest)
                           \<lparr>pos = 8 + (length body + 9), state = InText,
                            currentTag = lit ''script''\<rparr>))
                @ [DoneToken]),
         None)"
    by (rule tokenize_script_found)
next
  fix tail
  assume a: "\<forall>j. \<not> prefix (lit ''</script>'') (drop j tail)"
  then show "tokenize (lit ''<script>'' @ tail) =
        ([StartToken, OpeningTagToken (lit ''script''),
          OpeningTagEndToken (lit ''script'') (lit ''>'')]
         @ (if tail = [] then [] else [TextToken tail]) @ [DoneToken], None)"
    by (rule tokenize_script_none)
  from a show "parse (lit ''<script>'' @ tail) =
        ([Open (lit ''script'') [] False] @ (if tail = [] then [] else [Text tail])
         @ [Close (lit ''script'') False], None)"
    by (rule parse_script_none)
next
  show "parse (lit ''<script>alert(\"</script>\")</script>'') =
       ([Open (lit ''script'') [] False, Text (lit ''alert(\"''),
         Close (lit ''script'') False, Text (lit ''\")'')], None)"
    by (simp add: ev)
qed

theorem C5_script_raw_text_witness:
  "tokStep (lit ''<script>a</script>c'') \<lparr>pos = 7, state = InTag, currentTag = lit ''script''\<rparr>
     = Inr ([OpeningTagEndToken (lit ''script'') (lit ''>'')],
            Some \<lparr>pos = 8, state = InScript, currentTag = lit ''script''\<rparr>)
   \<and> drop 8 (lit ''<script>a</script>c'') = lit ''a'' @ lit ''</script>'' @ lit ''c''
   \<and> \<not> prefix (lit ''</script>'') (drop (8 + 0) (lit ''<script>a</script>c''))
   \<and> tokStep (lit ''<script>a</script>c'') \<lparr>pos = 8, state = InScript, currentTag = lit ''script''\<rparr>
     = Inr ([TextToken (lit ''a''), ClosingTagToken (lit ''script'')],
            Some \<lparr>pos = 18, state = InText, currentTag = lit ''script''\<rparr>)
   \<and> run (lit ''<script>ab'') \<lparr>pos = 8, state = InScript, currentTag = lit ''script''\<rparr>
     = ([[TextToken (lit ''ab'')]], None)
   \<and> coalesce None (TextToken [] # ClosingTagToken (lit ''script'') # [DoneToken])
     = [ClosingTagToken (lit ''script''), DoneToken]
   \<and> tokenize (lit ''<script>'' @ lit ''a'' @ lit ''</script>'' @ [])
     = ([StartToken, OpeningTagToken (lit ''script''),
         OpeningTagEndToken (lit ''script'') (lit ''>''), TextToken (lit ''a''),
         ClosingTagToken (lit ''script''), DoneToken], None)
   \<and> parse (lit ''<script>'' @ lit ''ab'')
     = ([Open (lit ''script'') [] False, Text (lit ''ab''), Close (lit ''script'') False], None)"
proof -
  let ?h = "lit ''<script>a</script>c''"
  let ?g = "lit ''<script>ab''"
  let ?t = "\<lparr>pos = 7, state = InTag, currentTag = lit ''script''\<rparr>"
  let ?s = "\<lparr>pos = 8, state = InScript, currentTag = lit ''script''\<rparr>"
  have h1: "state ?t = InTag \<and> currentTag ?t = lit ''script'' \<and> getAttributeName ?h (pos ?t) = None
      \<and> getTagEnd ?h (pos ?t) = Some (1, lit ''>'')"
    by (simp add: ev)
  have h2a: "drop 8 ?h = lit ''a'' @ lit ''</script>'' @ lit ''c''" by (simp add: ev)
  have h2b: "\<forall>j < length (lit ''a''). \<not> prefix (lit ''</script>'') (drop (8 + j) ?h)"
    by (simp add: ev)
  from h2b have h2c: "\<not> prefix (lit ''</script>'') (drop (8 + 0) ?h)"
    by (simp add: lit_def)
  have short: "\<And>xs. length xs < 9 \<Longrightarrow> \<not> prefix (lit ''</script>'') xs"
  proof
    fix xs :: jsstring
    assume "length xs < 9" and "prefix (lit ''</script>'') xs"
    from prefix_length_le [OF this(2)] this(1) show False by (simp add: lit_def)
  qed
  have h3: "\<forall>j. \<not> prefix (lit ''</script>'') (drop (8 + j) ?g)"
    by (intro allI short) (simp add: lit_def)
  have h4: "\<forall>j. \<not> prefix (lit ''</script>'') (drop j (lit ''ab''))"
    by (intro allI short) (simp add: lit_def)
  have h5: "\<forall>j < length (lit ''a'').
      \<not> prefix (lit ''</script>'') (drop j (lit ''a'' @ lit ''</script>'' @ []))"
    by (simp add: lit_def)
  have h2: "state ?s = InScript \<and> drop (pos ?s) ?h = lit ''a'' @ lit ''</script>'' @ lit ''c''
      \<and> (\<forall>j < length (lit ''a''). \<not> prefix (lit ''</script>'') (drop (pos ?s + j) ?h))"
    using h2a h2b by simp
  have h3': "state ?s = InScript \<and> (\<forall>j. \<not> prefix (lit ''</script>'') (drop (pos ?s + j) ?g))"
    using h3 by simp
  have h6: "(None :: jsstring option) = None \<or> (None :: jsstring option) = Some []"
    by simp
  from C5_script_raw_text [THEN conjunct1, THEN spec, THEN spec, THEN spec, THEN spec,
      THEN mp, OF h1]
  have c1: "tokStep ?h ?t = Inr ([OpeningTagEndToken (lit ''script'') (lit ''>'')], Some ?s)"
    by simp
  from C5_script_raw_text [THEN conjunct2, THEN conjunct1, THEN spec, THEN spec, THEN spec,
      THEN spec, THEN mp, OF h2, THEN conjunct1]
  have c2: "tokStep ?h ?s = Inr ([TextToken (lit ''a''), ClosingTagToken (lit ''script'')],
            Some \<lparr>pos = 18, state = InText, currentTag = lit ''script''\<rparr>)"
    by (simp add: lit_def)
  from C5_script_raw_text [THEN conjunct2, THEN conjunct2, THEN conjunct1, THEN spec,
      THEN spec, THEN mp, OF h3']
  have c3: "run ?g ?s = ([[TextToken (lit ''ab'')]], None)"
    by (simp add: lit_def)
  from C5_script_raw_text [THEN conjunct2, THEN conjunct2, THEN conjunct2, THEN conjunct1,
      THEN spec, THEN spec, THEN spec, THEN spec, THEN mp, OF h6,
      of "[]" "lit ''script''" "[DoneToken]"]
  have c4: "coalesce None (TextToken [] # ClosingTagToken (lit ''script'') # [DoneToken])
     = [ClosingTagToken (lit ''script''), DoneToken]"
    by simp
  have r: "run (lit ''<script>'' @ lit ''a'' @ lit ''</script>'' @ [])
             \<lparr>pos = 8 + (length (lit ''a'') + 9), state = InText, currentTag = lit ''script''\<rparr>
           = ([], None)"
    by (simp add: run.simps lit_def)
  from C5_script_raw_text [THEN conjunct2, THEN conjunct2, THEN conjunct2, THEN conjunct2,
      THEN conjunct1, THEN spec, THEN spec, THEN mp, OF h5] r
  have c5: "tokenize (lit ''<script>'' @ lit ''a'' @ lit ''</script>'' @ [])
     = ([StartToken, OpeningTagToken (lit ''script''),
         OpeningTagEndToken (lit ''script'') (lit ''>''), TextToken (lit ''a''),
         ClosingTagToken (lit ''script''), DoneToken], None)"
    by (simp add: lit_def)
  from C5_script_raw_text [THEN conjunct2, THEN conjunct2, THEN conjunct2, THEN conjunct2,
      THEN conjunct2, THEN conjunct1, THEN spec, THEN mp, OF h4, THEN conjunct2]
  have c6: "parse (lit ''<script>'' @ lit ''ab'')
     = ([Open (lit ''script'') [] False, Text (lit ''ab''), Close (lit ''script'') False], None)"
    by (simp add: lit_def)
  from c1 h2a h2c c2 c3 c4 c5 c6 show ?thesis by blast
qed

section \<open>Attributes\<close>

lemma assign_map_of: "map_of (assign k v a) = (map_of a)(k \<mapsto> v)"
  by (induction a) auto

lemma assign_keys:
  "map fst (assign k v a) = (if k \<in> set (map fst a) then map fst a else map fst a @ [k])"
proof (induction a)
  case Nil
  then show ?case by simp
next
  case (Cons kv a)
  obtain k' v' where kv: "kv = (k', v')" by (cases kv)
  show ?case
  proof (cases "k' = k")
    case True
    with kv show ?thesis by simp
  next
    case False
    with kv Cons show ?thesis by (cases "k \<in> set (map fst a)") simp_all
  qed
qed

lemma assignAll_snoc:
  "foldl (\<lambda>a (k, v). assign k v a) a0 (avs @ [(k, v)])
     = assign k v (foldl (\<lambda>a (k, v). assign k v a) a0 avs)"
  by simp

lemma assignAll_map_of:
  "map_of (foldl (\<lambda>a (k, v). assign k v a) [] avs) = map_of (rev avs)"
proof (induction avs rule: rev_induct)
  case Nil
  then show ?case by simp
next
  case (snoc kv avs)
  obtain k v where kv: "kv = (k, v)" by (cases kv)
  from snoc kv show ?case by (simp add: assign_map_of)
qed

lemma assignAll_keys:
  "map fst (foldl (\<lambda>a (k, v). assign k v a) [] avs) = rev (remdups (rev (map fst avs)))"
proof (induction avs rule: rev_induct)
  case Nil
  then show ?case by simp
next
  case (snoc kv avs)
  obtain k v where kv: "kv = (k, v)" by (cases kv)
  let ?A = "foldl (\<lambda>a (k, v). assign k v a) [] avs"
  from snoc have s: "set (map fst ?A) = set (map fst avs)" by simp
  have "map fst (assign k v ?A) = (if k \<in> set (map fst avs) then map fst ?A else map fst ?A @ [k])"
    unfolding assign_keys s ..
  with snoc kv show ?case by simp
qed

lemma parseLoop_attributes:
  "pendingTag s = Some p \<Longrightarrow>
   parseLoop s (map (\<lambda>(k, v). AttributeToken k v) avs)
     = ([], Inr (s\<lparr>pendingTag :=
                  Some (p\<lparr>attributes := foldl (\<lambda>a (k, v). assign k v a) (attributes p) avs\<rparr>)\<rparr>))"
proof (induction avs arbitrary: s p)
  case Nil
  then show ?case by simp
next
  case (Cons kv avs)
  obtain k v where kv: "kv = (k, v)" by (cases kv)
  let ?p = "p\<lparr>attributes := assign k v (attributes p)\<rparr>"
  let ?s = "s\<lparr>pendingTag := Some ?p\<rparr>"
  have "pendingTag ?s = Some ?p" by simp
  from Cons.IH [OF this] Cons.prems kv show ?case by simp
qed

lemma indexOf_absent: "q \<notin> set (drop from str) \<Longrightarrow> indexOf str q from = None"
proof -
  assume a: "q \<notin> set (drop from str)"
  then have t: "takeWhile (\<lambda>x. x \<noteq> q) (drop from str) = drop from str"
    by (metis (mono_tags, lifting) takeWhile_eq_all_conv)
  show ?thesis unfolding indexOf_def Let_def t by simp
qed

text \<open>
  C7, as stated, is false: the attributes are not always held in source order. For
  \<open><a b=1 2=x>\<close> the attribute \<open>b\<close> comes first in the source, but the name \<open>2\<close> is an
  array index, and the attributes object enumerates it in front of \<open>b\<close>.
\<close>

theorem C7_counterexample:
  "parse (lit ''<a b=1 2=x>'')
     = ([Open (lit ''a'') [(lit ''b'', lit ''1''), (lit ''2'', lit ''x'')] False,
         Close (lit ''a'') False], None)
   \<and> ownKeys [(lit ''b'', lit ''1''), (lit ''2'', lit ''x'')] = [lit ''2'', lit ''b'']
   \<and> ownKeys [(lit ''b'', lit ''1''), (lit ''2'', lit ''x'')] \<noteq> [lit ''b'', lit ''2'']"
  by (simp add: ev ownKeys_def isArrayIndex_def isDigit_def indexValue_def)

text \<open>
  C7, amended. Between an \<open>opening-tag\<close> token and the end of its tag the parser assigns
  every attribute token to the attributes of the pending tag, in the order of the
  tokens, and the \<open>Open\<close> event carries these attributes. Hence every attribute is held,
  a name is mapped to the value of its last occurrence, and the properties were created
  in the order in which the names first occur in the source. The object enumerates them
  in that order, except that the names that are array indices come first, in ascending
  numeric order. The tokenizer gives an attribute without an equals sign the value
  \<open>""\<close>. \<open>readAttribute\<close> at a quote that is not closed returns the rest of the input
  behind the quote as the value, and a length that reaches the end of the input.
\<close>

theorem C7_attributes:
  "(\<forall>s nm avs.
      parseLoop s (OpeningTagToken nm # map (\<lambda>(k, v). AttributeToken k v) avs)
        = ([], Inr (s\<lparr>pendingTag :=
              Some \<lparr>name = nm, attributes = foldl (\<lambda>a (k, v). assign k v a) [] avs\<rparr>\<rparr>)))
   \<and> (\<forall>s p nm tok out r.
        pendingTag s = Some p \<and> parseStep (OpeningTagEndToken nm tok) s = (out, r) \<longrightarrow>
        (\<forall>x a b. Open x a b \<in> set out \<longrightarrow> x = name p \<and> a = attributes p)
        \<and> (\<forall>s'. r = Inr s' \<longrightarrow>
              Open (name p) (attributes p) (tok = lit ''/>'' \<or> isSelfClosing nm) \<in> set out))
   \<and> (\<forall>avs A F.
        A = foldl (\<lambda>a (k, v). assign k v a) [] avs \<and> F = rev (remdups (rev (map fst avs))) \<longrightarrow>
        map_of A = map_of (rev avs)
        \<and> map fst A = F
        \<and> ownKeys A = sort_key indexValue (filter isArrayIndex F)
                        @ filter (\<lambda>k. \<not> isArrayIndex k) F
        \<and> ((\<forall>k \<in> set F. \<not> isArrayIndex k) \<longrightarrow> ownKeys A = F))
   \<and> (\<forall>html s len nm.
        state s = InTag \<and> getAttributeName html (pos s) = Some (len, nm, False) \<longrightarrow>
        tokStep html s = Inr ([AttributeToken nm []], Some (s\<lparr>pos := pos s + len\<rparr>)))
   \<and> (\<forall>str p q.
        charAt str p = Some q \<and> q \<in> set QUOTES \<and> q \<notin> set (drop (Suc p) str) \<longrightarrow>
        readAttribute str p = Inr (length str - p, drop (Suc p) str))
   \<and> parse (lit ''<a b=1 c b=\"2\" d = 'x y'>'')
        = ([Open (lit ''a'') [(lit ''b'', lit ''2''), (lit ''c'', []), (lit ''d'', lit ''x y'')] False,
            Close (lit ''a'') False], None)
   \<and> tokenize (lit ''<a b=\"x>y'')
        = ([StartToken, OpeningTagToken (lit ''a''), AttributeToken (lit ''b'') (lit ''x>y''),
            DoneToken], None)"
proof (intro conjI allI impI)
  fix s :: pstate and nm avs
  let ?s = "s\<lparr>pendingTag := Some \<lparr>name = nm, attributes = []\<rparr>\<rparr>"
  have "pendingTag ?s = Some \<lparr>name = nm, attributes = []\<rparr>" by simp
  from parseLoop_attributes [OF this, of avs]
  show "parseLoop s (OpeningTagToken nm # map (\<lambda>(k, v). AttributeToken k v) avs)
        = ([], Inr (s\<lparr>pendingTag :=
              Some \<lparr>name = nm, attributes = foldl (\<lambda>a (k, v). assign k v a) [] avs\<rparr>\<rparr>))"
    by simp
next
  fix s :: pstate and p nm tok out r x a b
  assume h: "pendingTag s = Some p \<and> parseStep (OpeningTagEndToken nm tok) s = (out, r)"
    and o: "Open x a b \<in> set out"
  then show "x = name p" and "a = attributes p"
    by (auto simp: Let_def split: option.splits sum.splits if_splits)
next
  fix s :: pstate and p nm tok out r s'
  assume h: "pendingTag s = Some p \<and> parseStep (OpeningTagEndToken nm tok) s = (out, r)"
    and r: "r = Inr s'"
  then show "Open (name p) (attributes p) (tok = lit ''/>'' \<or> isSelfClosing nm) \<in> set out"
    by (auto simp: Let_def split: option.splits sum.splits if_splits)
next
  fix avs :: "(jsstring \<times> jsstring) list" and A F
  assume d: "A = foldl (\<lambda>a (k, v). assign k v a) [] avs \<and> F = rev (remdups (rev (map fst avs)))"
  from d show "map_of A = map_of (rev avs)" by (simp add: assignAll_map_of)
  from d show k: "map fst A = F" by (simp add: assignAll_keys)
  then show o: "ownKeys A = sort_key indexValue (filter isArrayIndex F)
                        @ filter (\<lambda>k. \<not> isArrayIndex k) F"
    by (simp add: ownKeys_def)
  assume n: "\<forall>k \<in> set F. \<not> isArrayIndex k"
  then have "filter isArrayIndex F = []" "filter (\<lambda>k. \<not> isArrayIndex k) F = F"
    by (simp_all add: filter_empty_conv filter_id_conv)
  with o show "ownKeys A = F" by simp
next
  fix html and s :: tstate and len nm
  assume "state s = InTag \<and> getAttributeName html (pos s) = Some (len, nm, False)"
  then show "tokStep html s = Inr ([AttributeToken nm []], Some (s\<lparr>pos := pos s + len\<rparr>))"
    by (simp add: tokStep_def)
next
  fix str p q
  assume a: "charAt str p = Some q \<and> q \<in> set QUOTES \<and> q \<notin> set (drop (Suc p) str)"
  then have "indexOf str q (p + 1) = None" by (simp add: indexOf_absent)
  with a show "readAttribute str p = Inr (length str - p, drop (Suc p) str)"
    by (simp add: readAttribute_def Let_def substringFrom_def)
next
  show "parse (lit ''<a b=1 c b=\"2\" d = 'x y'>'')
        = ([Open (lit ''a'') [(lit ''b'', lit ''2''), (lit ''c'', []), (lit ''d'', lit ''x y'')] False,
            Close (lit ''a'') False], None)"
    by (simp add: ev)
next
  show "tokenize (lit ''<a b=\"x>y'')
        = ([StartToken, OpeningTagToken (lit ''a''), AttributeToken (lit ''b'') (lit ''x>y''),
            DoneToken], None)"
    by (simp add: ev)
qed

theorem C7_attributes_witness:
  "(let p = \<lparr>name = lit ''a'', attributes = [(lit ''b'', lit ''2''), (lit ''c'', [])]\<rparr>;
        s = \<lparr>stack = [], pendingTag = Some p\<rparr>
    in parseStep (OpeningTagEndToken (lit ''a'') (lit ''>'')) s
         = ([Open (lit ''a'') [(lit ''b'', lit ''2''), (lit ''c'', [])] False],
            Inr (s\<lparr>stack := [p]\<rparr>))
       \<and> Open (name p) (attributes p) (lit ''>'' = lit ''/>'' \<or> isSelfClosing (lit ''a''))
            \<in> set [Open (lit ''a'') [(lit ''b'', lit ''2''), (lit ''c'', [])] False])
   \<and> foldl (\<lambda>a (k, v). assign k v a) []
        [(lit ''b'', lit ''1''), (lit ''c'', []), (lit ''b'', lit ''2'')]
       = [(lit ''b'', lit ''2''), (lit ''c'', [])]
   \<and> rev (remdups (rev (map fst [(lit ''b'', lit ''1''), (lit ''c'', []), (lit ''b'', lit ''2'')])))
       = [lit ''b'', lit ''c'']
   \<and> \<not> isArrayIndex (lit ''b'') \<and> \<not> isArrayIndex (lit ''c'')
   \<and> ownKeys [(lit ''b'', lit ''2''), (lit ''c'', [])] = [lit ''b'', lit ''c'']
   \<and> getAttributeName (lit ''<a c>'') 2 = Some (2, lit ''c'', False)
   \<and> tokStep (lit ''<a c>'') \<lparr>pos = 2, state = InTag, currentTag = lit ''a''\<rparr>
       = Inr ([AttributeToken (lit ''c'') []],
              Some \<lparr>pos = 4, state = InTag, currentTag = lit ''a''\<rparr>)
   \<and> charAt (lit ''<a b=\"x>y'') 5 = Some (ch CHR 0x22)
   \<and> ch CHR 0x22 \<notin> set (drop (Suc 5) (lit ''<a b=\"x>y''))
   \<and> readAttribute (lit ''<a b=\"x>y'') 5 = Inr (4, lit ''x>y'')"
proof -
  define p where "p = \<lparr>name = lit ''a'', attributes = [(lit ''b'', lit ''2''), (lit ''c'', [])]\<rparr>"
  define s where "s = \<lparr>stack = [], pendingTag = Some p\<rparr>"
  let ?out = "[Open (lit ''a'') [(lit ''b'', lit ''2''), (lit ''c'', [])] False]"
  have e: "parseStep (OpeningTagEndToken (lit ''a'') (lit ''>'')) s = (?out, Inr (s\<lparr>stack := [p]\<rparr>))"
    by (simp add: s_def p_def ev)
  have "pendingTag s = Some p" by (simp add: s_def)
  with e C7_attributes [THEN conjunct2, THEN conjunct1, rule_format,
      of s p "lit ''a''" "lit ''>''" ?out "Inr (s\<lparr>stack := [p]\<rparr>)"]
  have w1: "Open (name p) (attributes p) (lit ''>'' = lit ''/>'' \<or> isSelfClosing (lit ''a''))
            \<in> set ?out"
    by blast
  let ?avs = "[(lit ''b'', lit ''1''), (lit ''c'', []), (lit ''b'', lit ''2'')]"
  let ?A = "[(lit ''b'', lit ''2''), (lit ''c'', [])]"
  let ?F = "[lit ''b'', lit ''c'']"
  have a1: "foldl (\<lambda>a (k, v). assign k v a) [] ?avs = ?A" by (simp add: lit_def)
  have a2: "rev (remdups (rev (map fst ?avs))) = ?F" by (simp add: lit_def)
  have a3: "\<not> isArrayIndex (lit ''b'')" "\<not> isArrayIndex (lit ''c'')"
    by (simp_all add: isArrayIndex_def isDigit_def lit_def)
  then have a4: "\<forall>k \<in> set ?F. \<not> isArrayIndex k" by simp
  from C7_attributes [THEN conjunct2, THEN conjunct2, THEN conjunct1, rule_format,
      of ?A ?avs ?F] a1 a2 a4
  have w0: "ownKeys ?A = ?F" by simp
  let ?t = "\<lparr>pos = 2, state = InTag, currentTag = lit ''a''\<rparr>"
  have g: "getAttributeName (lit ''<a c>'') 2 = Some (2, lit ''c'', False)" by (simp add: ev)
  then have "state ?t = InTag \<and> getAttributeName (lit ''<a c>'') (pos ?t) = Some (2, lit ''c'', False)"
    by simp
  from C7_attributes [THEN conjunct2, THEN conjunct2, THEN conjunct2, THEN conjunct1,
      rule_format, OF this]
  have w2: "tokStep (lit ''<a c>'') ?t
       = Inr ([AttributeToken (lit ''c'') []], Some \<lparr>pos = 4, state = InTag, currentTag = lit ''a''\<rparr>)"
    by simp
  have q: "charAt (lit ''<a b=\"x>y'') 5 = Some (ch CHR 0x22)"
    "ch CHR 0x22 \<in> set QUOTES"
    "ch CHR 0x22 \<notin> set (drop (Suc 5) (lit ''<a b=\"x>y''))"
    by (simp_all add: ev)
  from C7_attributes [THEN conjunct2, THEN conjunct2, THEN conjunct2, THEN conjunct2,
      THEN conjunct1, rule_format, of "lit ''<a b=\"x>y''" 5 "ch CHR 0x22"] q
  have w3: "readAttribute (lit ''<a b=\"x>y'') 5 = Inr (4, lit ''x>y'')"
    by (simp add: lit_def)
  show ?thesis
    unfolding Let_def p_def [symmetric] s_def [symmetric]
    using e w1 a1 a2 a3 w0 g w2 q w3 by blast
qed

end
